theory Spec2Isabelle
  imports Main "HOL-Library.Word"
begin

section \<open>The growable output buffer of src/lib/fbuf.h\<close>

text \<open>
  The header defines one structure, \<^verbatim>\<open>fbuf\<close>, and a dozen \<^verbatim>\<open>static inline\<close> functions on it.
  It is embedded function by function. What the C text leaves to the build or to the
  operating system is made explicit:
  \<^item> the two preprocessor branches (\<^verbatim>\<open>__linux__\<close> or not), whether \<^verbatim>\<open>assert\<close> is compiled in
    (\<^verbatim>\<open>NDEBUG\<close>) and the value of \<^verbatim>\<open>BUFSIZ\<close> are fields of a \<open>config\<close>;
  \<^item> what the operating system answers to an allocation call is a \<open>sysreply\<close> passed to the
    function that makes the call;
  \<^item> \<^verbatim>\<open>size_t\<close> and \<^verbatim>\<open>uint64_t\<close> are 64-bit words, \<^verbatim>\<open>int\<close> is a 32-bit word read with \<open>sint\<close>,
    \<^verbatim>\<open>char\<close> is an 8-bit word;
  \<^item> the memory behind \<^verbatim>\<open>f->buf\<close> is the list of the bytes really allocated there, which
    need not be as long as \<^verbatim>\<open>f->size\<close> says; a read or write outside it is the outcome
    \<open>Fault\<close>, a failed \<^verbatim>\<open>assert\<close> is the outcome \<open>Aborted\<close>, and a call that never returns
    is the value \<open>None\<close>.
\<close>

type_synonym u64 = "64 word"
type_synonym cint = "32 word"
type_synonym byte = "8 word"

record fbuf =
  size_f :: u64
  used_f :: u64
  buf_f :: "byte list option"

record config =
  linux :: bool
  ndebug :: bool
  BUFSIZ :: u64

record sysreply =
  alloc_ok :: bool
  huge_ok :: bool
  fresh :: "nat \<Rightarrow> byte"

datatype 'a outcome = Returns 'a | Aborted | Fault

fun seq :: "'a outcome option \<Rightarrow> ('a \<Rightarrow> 'b outcome option) \<Rightarrow> 'b outcome option" where
  "seq None k = None"
| "seq (Some Aborted) k = Some Aborted"
| "seq (Some Fault) k = Some Fault"
| "seq (Some (Returns x)) k = k x"

definition SIZE_MAX :: u64 where
  "SIZE_MAX = 0xFFFFFFFFFFFFFFFF"

subsection \<open>Memory\<close>

text \<open>
  \<open>resized\<close> is the block an allocator hands out when asked for \<open>n\<close> bytes in place of the
  block \<open>bs\<close>: the old bytes as far as they fit, then bytes chosen by the system.
  \<open>mem_write\<close> is \<^verbatim>\<open>memcpy\<close> into a block at an offset, \<open>mem_read\<close> reads from one.
\<close>

definition resized :: "(nat \<Rightarrow> byte) \<Rightarrow> byte list \<Rightarrow> nat \<Rightarrow> byte list" where
  "resized fill bs n = take n bs @ map fill [length bs ..< n]"

definition mem_write :: "byte list \<Rightarrow> nat \<Rightarrow> byte list \<Rightarrow> byte list option" where
  "mem_write bs off xs =
     (if off + length xs \<le> length bs
      then Some (take off bs @ xs @ drop (off + length xs) bs)
      else None)"

definition mem_read :: "byte list \<Rightarrow> nat \<Rightarrow> byte list option" where
  "mem_read bs n = (if n \<le> length bs then Some (take n bs) else None)"

text \<open>The logical content of a buffer: the bytes at offsets \<open>[0, used)\<close>.\<close>

definition content :: "fbuf \<Rightarrow> byte list" where
  "content f = (case buf_f f of None \<Rightarrow> [] | Some bs \<Rightarrow> take (unat (used_f f)) bs)"

subsection \<open>fbuf_at\<close>

text \<open>
  A pointer into the buffer is its offset from \<^verbatim>\<open>f->buf\<close>. \<open>Wild\<close> stands for the result of
  arithmetic on the null pointer with a non-zero offset.
\<close>

datatype cptr = Null | Addr nat | Wild

definition fbuf_at :: "fbuf \<Rightarrow> u64 \<Rightarrow> cptr" where
  "fbuf_at f at =
     (if at > used_f f then Null
      else (case buf_f f of
              None \<Rightarrow> (if at = 0 then Null else Wild)
            | Some bs \<Rightarrow> Addr (unat at)))"

subsection \<open>fbuf_grow\<close>

text \<open>
  The \<^verbatim>\<open>while\<close> loop of \<^verbatim>\<open>fbuf_grow\<close>, over its only variable \<^verbatim>\<open>size\<close>. It leaves either at the
  reallocation inside its body, with the size found (\<open>Some\<close>), or at its end (\<open>None\<close>).
  From \<^verbatim>\<open>size == 0\<close> it never leaves, so it is a partial function.
\<close>

partial_function (option) grow_loop :: "u64 \<Rightarrow> u64 \<Rightarrow> u64 \<Rightarrow> u64 option option" where
  "grow_loop used n sz =
     (if SIZE_MAX div 2 \<ge> sz
      then (if sz * 2 - used < n
            then grow_loop used n (sz * 2)
            else Some (Some (sz * 2)))
      else Some None)"

declare grow_loop.simps [code]

text \<open>
  The reallocation: \<^verbatim>\<open>mremap(f->buf, f->size, size, MREMAP_MAYMOVE)\<close> on Linux,
  \<^verbatim>\<open>realloc(f->buf, f->size)\<close> elsewhere. The second asks for the old size.
\<close>

definition grow_realloc :: "config \<Rightarrow> sysreply \<Rightarrow> fbuf \<Rightarrow> u64 \<Rightarrow> byte list option" where
  "grow_realloc cfg os f sz =
     (if linux cfg
      then (case buf_f f of
              None \<Rightarrow> None
            | Some bs \<Rightarrow> if alloc_ok os then Some (resized (fresh os) bs (unat sz)) else None)
      else (if alloc_ok os
            then Some (resized (fresh os) (case buf_f f of None \<Rightarrow> [] | Some bs \<Rightarrow> bs)
                         (unat (size_f f)))
            else None))"

definition fbuf_grow :: "config \<Rightarrow> sysreply \<Rightarrow> fbuf \<Rightarrow> u64 \<Rightarrow> (cint \<times> fbuf) outcome option" where
  "fbuf_grow cfg os f n =
     (if \<not> ndebug cfg \<and> buf_f f = None then Some Aborted
      else if \<not> ndebug cfg \<and> size_f f = 0 then Some Aborted
      else if size_f f - used_f f \<ge> n then Some (Returns (0, f))
      else (case grow_loop (used_f f) n (size_f f) of
              None \<Rightarrow> None
            | Some None \<Rightarrow> Some (Returns (- 1, f))
            | Some (Some sz) \<Rightarrow>
                (case grow_realloc cfg os f sz of
                   None \<Rightarrow> Some (Returns (- 1, f))
                 | Some tmp \<Rightarrow> Some (Returns (0, f\<lparr>buf_f := Some tmp, size_f := sz\<rparr>)))))"

subsection \<open>Initialisation, reset, release\<close>

text \<open>
  \<^verbatim>\<open>fbuf_initgrow\<close>. The \<^verbatim>\<open>static bool hugepages_failed\<close> of its Linux branch is passed in and
  returned. \<^verbatim>\<open>MAP_FAILED\<close> only lives between the \<^verbatim>\<open>mmap\<close> call and the test that replaces
  it by \<^verbatim>\<open>NULL\<close>, so \<open>None\<close> in \<open>b1\<close> below is \<^verbatim>\<open>NULL\<close>.
\<close>

definition fbuf_initgrow ::
  "config \<Rightarrow> sysreply \<Rightarrow> bool \<Rightarrow> fbuf \<Rightarrow> 32 word \<Rightarrow> (cint \<times> bool \<times> fbuf) outcome" where
  "fbuf_initgrow cfg os hugepages_failed f small =
     (if \<not> ndebug cfg \<and> (buf_f f \<noteq> None \<or> used_f f \<noteq> 0 \<or> size_f f \<noteq> 0) then Aborted
      else
        let sz = (if small \<noteq> 0 then (if 4096 > BUFSIZ cfg then 4096 else BUFSIZ cfg)
                  else 0x200000);
            new = resized (fresh os) [] (unat sz)
        in if linux cfg
           then
             let try_huge = (\<not> hugepages_failed \<and> small = 0);
                 hf = (hugepages_failed \<or> (try_huge \<and> \<not> huge_ok os));
                 b1 = (if try_huge then (if huge_ok os then Some new else None) else buf_f f)
             in (case b1 of
                   Some bs \<Rightarrow> Returns (0, hf, f\<lparr>buf_f := Some bs, size_f := sz\<rparr>)
                 | None \<Rightarrow>
                     if alloc_ok os
                     then Returns (0, hf, f\<lparr>buf_f := Some new, size_f := sz\<rparr>)
                     else Returns (- 1, hf, f\<lparr>buf_f := None\<rparr>))
           else if alloc_ok os
                then Returns (0, hugepages_failed, f\<lparr>buf_f := Some new, size_f := sz\<rparr>)
                else Returns (- 1, hugepages_failed, f\<lparr>buf_f := None\<rparr>))"

definition fbuf_init_small ::
  "config \<Rightarrow> sysreply \<Rightarrow> bool \<Rightarrow> fbuf \<Rightarrow> (cint \<times> bool \<times> fbuf) outcome" where
  "fbuf_init_small cfg os hugepages_failed f =
     fbuf_initgrow cfg os hugepages_failed (f\<lparr>used_f := 0, size_f := 0, buf_f := None\<rparr>) 1"

definition fbuf_init ::
  "config \<Rightarrow> sysreply \<Rightarrow> bool \<Rightarrow> fbuf \<Rightarrow> (cint \<times> bool \<times> fbuf) outcome" where
  "fbuf_init cfg os hugepages_failed f =
     fbuf_initgrow cfg os hugepages_failed (f\<lparr>used_f := 0, size_f := 0, buf_f := None\<rparr>) 0"

definition fbuf_reset :: "fbuf \<Rightarrow> fbuf" where
  "fbuf_reset f = f\<lparr>used_f := 0\<rparr>"

text \<open>
  \<^verbatim>\<open>fbuf_free\<close>, for a structure that exists (the test \<^verbatim>\<open>if(f)\<close> has succeeded). The result of
  \<^verbatim>\<open>munmap\<close> is ignored by the code, so both branches on \<^verbatim>\<open>f->buf\<close> end with no region.
\<close>

definition fbuf_free :: "fbuf \<Rightarrow> fbuf" where
  "fbuf_free f =
     (let f1 = (case buf_f f of None \<Rightarrow> f | Some bs \<Rightarrow> f\<lparr>buf_f := None\<rparr>)
      in f1\<lparr>size_f := 0, used_f := 0\<rparr>)"

subsection \<open>Writes\<close>

definition fbuf_putc ::
  "config \<Rightarrow> sysreply \<Rightarrow> fbuf \<Rightarrow> byte \<Rightarrow> (cint \<times> fbuf) outcome option" where
  "fbuf_putc cfg os f c =
     seq (fbuf_grow cfg os f 1) (\<lambda>(g, f1).
       if g \<noteq> 0 then Some (Returns (- 1, f1))
       else
         let at = used_f f1; f2 = f1\<lparr>used_f := used_f f1 + 1\<rparr>
         in (case fbuf_at f2 at of
               Addr i \<Rightarrow>
                 (case buf_f f2 of
                    None \<Rightarrow> Some Fault
                  | Some bs \<Rightarrow>
                      (case mem_write bs i [c] of
                         None \<Rightarrow> Some Fault
                       | Some bs' \<Rightarrow> Some (Returns (1, f2\<lparr>buf_f := Some bs'\<rparr>))))
             | _ \<Rightarrow> Some Fault))"

text \<open>
  \<^verbatim>\<open>fbuf_putn(f, s, len)\<close>: \<open>s\<close> is the memory readable at the pointer \<^verbatim>\<open>s\<close>. The function
  returns \<^verbatim>\<open>len\<close>, a \<^verbatim>\<open>size_t\<close>, as an \<^verbatim>\<open>int\<close>: the low 32 bits.
\<close>

definition fbuf_putn ::
  "config \<Rightarrow> sysreply \<Rightarrow> fbuf \<Rightarrow> byte list \<Rightarrow> u64 \<Rightarrow> (cint \<times> fbuf) outcome option" where
  "fbuf_putn cfg os f s len =
     seq (fbuf_grow cfg os f len) (\<lambda>(g, f1).
       if g \<noteq> 0 then Some (Returns (- 1, f1))
       else
         (case mem_read s (unat len) of
            None \<Rightarrow> Some Fault
          | Some xs \<Rightarrow>
              (case buf_f f1 of
                 None \<Rightarrow> Some Fault
               | Some bs \<Rightarrow>
                   (case mem_write bs (unat (used_f f1)) xs of
                      None \<Rightarrow> Some Fault
                    | Some bs' \<Rightarrow>
                        Some (Returns (ucast len,
                                f1\<lparr>buf_f := Some bs', used_f := used_f f1 + len\<rparr>))))))"

text \<open>A C string is given by its bytes; \<^verbatim>\<open>strlen\<close> counts up to the first zero byte.\<close>

definition strlen :: "byte list \<Rightarrow> nat" where
  "strlen s = length (takeWhile (\<lambda>b. b \<noteq> 0) s)"

definition fbuf_puts ::
  "config \<Rightarrow> sysreply \<Rightarrow> fbuf \<Rightarrow> byte list \<Rightarrow> (cint \<times> fbuf) outcome option" where
  "fbuf_puts cfg os f s = fbuf_putn cfg os f s (word_of_nat (strlen s))"

text \<open>
  \<^verbatim>\<open>snprintf(dst, avail, ...)\<close> of the C library, for a rendering \<open>out\<close> of the arguments: it
  stores at most \<open>avail - 1\<close> bytes of \<open>out\<close> and a terminating zero, and returns the length
  of \<open>out\<close>, or a negative value when that length is not an \<^verbatim>\<open>int\<close>.
  \<open>show_int\<close> is the rendering of \<^verbatim>\<open>"%d"\<close>.
\<close>

definition c_snprintf :: "nat \<Rightarrow> byte list \<Rightarrow> byte list \<times> cint" where
  "c_snprintf avail out =
     (if avail = 0 then [] else take (avail - 1) out @ [0],
      if int (length out) \<le> 2147483647 then word_of_nat (length out) else - 1)"

function dec_digits :: "int \<Rightarrow> byte list" where
  "dec_digits n =
     (if n < 10 then [48 + word_of_int n]
      else dec_digits (n div 10) @ [48 + word_of_int (n mod 10)])"
  by pat_completeness auto
termination
  by (relation "measure nat") auto

definition show_int :: "int \<Rightarrow> byte list" where
  "show_int i = (if i < 0 then 45 # dec_digits (- i) else dec_digits i)"

definition fbuf_putint ::
  "config \<Rightarrow> sysreply \<Rightarrow> fbuf \<Rightarrow> cint \<Rightarrow> (cint \<times> fbuf) outcome option" where
  "fbuf_putint cfg os f n =
     seq (fbuf_grow cfg os f 10) (\<lambda>(g, f1).
       if g \<noteq> 0 then Some (Returns (- 1, f1))
       else
         let avail = size_f f1 - used_f f1;
             (stored, ret) = c_snprintf (unat avail) (show_int (sint n));
             r = (scast ret :: u64)
         in (case buf_f f1 of
               None \<Rightarrow> Some Fault
             | Some bs \<Rightarrow>
                 (case mem_write bs (unat (used_f f1)) stored of
                    None \<Rightarrow> Some Fault
                  | Some bs' \<Rightarrow>
                      if r > avail
                      then (if ndebug cfg then Some (Returns (- 1, f1\<lparr>buf_f := Some bs'\<rparr>))
                            else Some Aborted)
                      else Some (Returns (ucast r,
                                   f1\<lparr>buf_f := Some bs', used_f := used_f f1 + r\<rparr>)))))"

text \<open>
  \<^verbatim>\<open>fbuf_printf(f, fmt, ...)\<close>: \<open>out\<close> is what the format and its arguments render to.
\<close>

definition fbuf_printf ::
  "config \<Rightarrow> sysreply \<Rightarrow> fbuf \<Rightarrow> byte list \<Rightarrow> (cint \<times> fbuf) outcome option" where
  "fbuf_printf cfg os f out =
     seq (fbuf_grow cfg os f (BUFSIZ cfg)) (\<lambda>(g, f1).
       if g <s 0 then Some (Returns (- 1, f1))
       else
         let avail = size_f f1 - used_f f1;
             (stored, r) = c_snprintf (unat avail) out
         in (case buf_f f1 of
               None \<Rightarrow> Some Fault
             | Some bs \<Rightarrow>
                 (case mem_write bs (unat (used_f f1)) stored of
                    None \<Rightarrow> Some Fault
                  | Some bs' \<Rightarrow>
                      if (scast r :: u64) \<ge> avail
                      then Some (Returns (- 1, f1\<lparr>buf_f := Some bs'\<rparr>))
                      else if \<not> ndebug cfg \<and> r <s 0 then Some Aborted
                      else Some (Returns (r,
                                   f1\<lparr>buf_f := Some bs', used_f := used_f f1 + scast r\<rparr>)))))"

definition fbuf_emit ::
  "config \<Rightarrow> sysreply \<Rightarrow> fbuf \<Rightarrow> byte list option \<Rightarrow> (cint \<times> fbuf) outcome option" where
  "fbuf_emit cfg os f esc =
     (case esc of
        None \<Rightarrow> Some (Returns (- 1, f))
      | Some s \<Rightarrow>
          seq (fbuf_puts cfg os f s) (\<lambda>(r, f1).
            if r <s 0 then Some (Returns (- 1, f1)) else Some (Returns (0, f1))))"

subsection \<open>Finalisation\<close>

text \<open>
  The \<^verbatim>\<open>FILE\<close> the buffer is written to: the bytes it has taken, the numbers of calls of
  \<^verbatim>\<open>fwrite\<close> and \<^verbatim>\<open>fflush\<close> made on it, and how it will behave: \<open>room\<close> is the number of bytes
  it still takes before a write error, \<open>flush_ok\<close> whether \<^verbatim>\<open>fflush\<close> succeeds.
  \<open>c_fwrite\<close> is \<^verbatim>\<open>fwrite(ptr, n, 1, fp)\<close> for the \<open>n\<close> bytes \<open>xs\<close> and returns the number of items
  written, \<open>c_fflush\<close> returns \<open>0\<close> or \<^verbatim>\<open>EOF\<close>.
\<close>

record cfile =
  written :: "byte list"
  fwrite_calls :: nat
  fflush_calls :: nat
  room :: nat
  flush_ok :: bool

definition c_EOF :: cint where
  "c_EOF = - 1"

definition c_fwrite :: "byte list \<Rightarrow> cfile \<Rightarrow> u64 \<times> cfile" where
  "c_fwrite xs fp =
     (if length xs \<le> room fp
      then (1, fp\<lparr>written := written fp @ xs, fwrite_calls := Suc (fwrite_calls fp),
                   room := room fp - length xs\<rparr>)
      else (0, fp\<lparr>written := written fp @ take (room fp) xs,
                   fwrite_calls := Suc (fwrite_calls fp), room := 0\<rparr>))"

definition c_fflush :: "cfile \<Rightarrow> cint \<times> cfile" where
  "c_fflush fp =
     (if flush_ok fp then 0 else c_EOF, fp\<lparr>fflush_calls := Suc (fflush_calls fp)\<rparr>)"

definition fbuf_finalize :: "fbuf \<Rightarrow> cfile \<Rightarrow> bool \<Rightarrow> (cint \<times> fbuf \<times> cfile) outcome" where
  "fbuf_finalize f fp flushfp =
     (case (if used_f f \<noteq> 0
            then (case buf_f f of
                    None \<Rightarrow> Fault
                  | Some bs \<Rightarrow>
                      (case mem_read bs (unat (used_f f)) of
                         None \<Rightarrow> Fault
                       | Some xs \<Rightarrow>
                           let (k, fp1) = c_fwrite xs fp
                           in Returns (if k \<noteq> 1 then - 1 else 0, fp1)))
            else Returns (0, fp)) of
        Returns (ret, fp1) \<Rightarrow>
          if flushfp \<and> ret = 0
          then (let (e, fp2) = c_fflush fp1
                in Returns (if e = c_EOF then - 1 else ret, fbuf_free f, fp2))
          else Returns (ret, fbuf_free f, fp1)
      | Aborted \<Rightarrow> Aborted
      | Fault \<Rightarrow> Fault)"

subsection \<open>Sequences of calls\<close>

text \<open>
  A caller is a list of calls, each with the answer of the operating system to it. The
  state of the process is the buffer and the static flag of \<^verbatim>\<open>fbuf_initgrow\<close>.
\<close>

datatype wcall =
    Putc byte | Putn "byte list" u64 | Puts "byte list" | Putint cint | Printf "byte list"
  | Emit "byte list option"

datatype call = Init_small | Init | Grow u64 | Write wcall | Reset | Free | Finalize cfile bool

record process =
  hugepages_failed :: bool
  the_fbuf :: fbuf

fun fbuf_write :: "config \<Rightarrow> sysreply \<Rightarrow> fbuf \<Rightarrow> wcall \<Rightarrow> (cint \<times> fbuf) outcome option" where
  "fbuf_write cfg os f (Putc c) = fbuf_putc cfg os f c"
| "fbuf_write cfg os f (Putn s len) = fbuf_putn cfg os f s len"
| "fbuf_write cfg os f (Puts s) = fbuf_puts cfg os f s"
| "fbuf_write cfg os f (Putint n) = fbuf_putint cfg os f n"
| "fbuf_write cfg os f (Printf out) = fbuf_printf cfg os f out"
| "fbuf_write cfg os f (Emit esc) = fbuf_emit cfg os f esc"

definition keep :: "process \<Rightarrow> (cint \<times> fbuf) outcome option \<Rightarrow> process outcome option" where
  "keep st r = seq r (\<lambda>(ret, f). Some (Returns (st\<lparr>the_fbuf := f\<rparr>)))"

definition keep_init :: "(cint \<times> bool \<times> fbuf) outcome \<Rightarrow> process outcome option" where
  "keep_init r =
     seq (Some r) (\<lambda>(ret, hf, f). Some (Returns \<lparr>hugepages_failed = hf, the_fbuf = f\<rparr>))"

fun step :: "config \<Rightarrow> sysreply \<Rightarrow> call \<Rightarrow> process \<Rightarrow> process outcome option" where
  "step cfg os Init_small st = keep_init (fbuf_init_small cfg os (hugepages_failed st) (the_fbuf st))"
| "step cfg os Init st = keep_init (fbuf_init cfg os (hugepages_failed st) (the_fbuf st))"
| "step cfg os (Grow n) st = keep st (fbuf_grow cfg os (the_fbuf st) n)"
| "step cfg os (Write w) st = keep st (fbuf_write cfg os (the_fbuf st) w)"
| "step cfg os Reset st = Some (Returns (st\<lparr>the_fbuf := fbuf_reset (the_fbuf st)\<rparr>))"
| "step cfg os Free st = Some (Returns (st\<lparr>the_fbuf := fbuf_free (the_fbuf st)\<rparr>))"
| "step cfg os (Finalize fp flushfp) st =
     keep st (Some (case fbuf_finalize (the_fbuf st) fp flushfp of
                      Returns (ret, f, fp1) \<Rightarrow> Returns (ret, f)
                    | Aborted \<Rightarrow> Aborted
                    | Fault \<Rightarrow> Fault))"

fun run :: "config \<Rightarrow> (sysreply \<times> call) list \<Rightarrow> process \<Rightarrow> process outcome option" where
  "run cfg [] st = Some (Returns st)"
| "run cfg ((os, c) # cs) st = seq (step cfg os c st) (run cfg cs)"

text \<open>
  A caller that writes the blocks of a list with \<^verbatim>\<open>fbuf_putn\<close>, one after the other, each under
  its own answer of the system, and collects the values returned.
\<close>

fun put_all :: "config \<Rightarrow> (sysreply \<times> byte list) list \<Rightarrow> fbuf \<Rightarrow> (cint list \<times> fbuf) outcome option" where
  "put_all cfg [] f = Some (Returns ([], f))"
| "put_all cfg ((os, s) # ws) f =
     seq (fbuf_putn cfg os f s (word_of_nat (length s))) (\<lambda>(r, f1).
       seq (put_all cfg ws f1) (\<lambda>(rs, f2). Some (Returns (r # rs, f2))))"

subsection \<open>Buffers in use\<close>

text \<open>
  \<open>initialized\<close>: the buffer has a region, a capacity that is not zero, and its logical
  content lies in the bytes really allocated, which are no more than the capacity says.
  \<open>backed\<close>: there are as many bytes allocated as the capacity says.
\<close>

definition initialized :: "fbuf \<Rightarrow> bool" where
  "initialized f =
     (case buf_f f of
        None \<Rightarrow> False
      | Some bs \<Rightarrow> size_f f \<noteq> 0 \<and> unat (used_f f) \<le> length bs \<and> length bs \<le> unat (size_f f))"

definition backed :: "fbuf \<Rightarrow> bool" where
  "backed f = (case buf_f f of None \<Rightarrow> False | Some bs \<Rightarrow> length bs = unat (size_f f))"


text \<open>
  The settings of the examples: a Linux build with assertions and \<^verbatim>\<open>BUFSIZ\<close> 1024, the same
  build elsewhere, a system that grants every request and hands out zeroed memory, one that
  refuses, and the buffer a successful \<^verbatim>\<open>fbuf_init_small\<close> leaves there, filled up to \<open>u\<close>.
\<close>

definition linux_cfg :: config where
  "linux_cfg = \<lparr>linux = True, ndebug = False, BUFSIZ = 1024\<rparr>"

definition other_cfg :: config where
  "other_cfg = \<lparr>linux = False, ndebug = False, BUFSIZ = 1024\<rparr>"

definition granting :: sysreply where
  "granting = \<lparr>alloc_ok = True, huge_ok = True, fresh = (\<lambda>i. 0)\<rparr>"

definition refusing :: sysreply where
  "refusing = \<lparr>alloc_ok = False, huge_ok = False, fresh = (\<lambda>i. 0)\<rparr>"

definition small_buffer :: "u64 \<Rightarrow> fbuf" where
  "small_buffer u = \<lparr>size_f = 4096, used_f = u, buf_f = Some (replicate 4096 0)\<rparr>"

definition sink0 :: cfile where
  "sink0 = \<lparr>written = [], fwrite_calls = 0, fflush_calls = 0, room = 100, flush_ok = True\<rparr>"

text \<open>
  A structure that has not been initialized, and a caller that initializes it and uses it.
\<close>

definition garbage :: process where
  "garbage = \<lparr>hugepages_failed = False, the_fbuf = \<lparr>size_f = 7, used_f = 9, buf_f = None\<rparr>\<rparr>"

definition session :: "(sysreply \<times> call) list" where
  "session = [(granting, Init_small), (granting, Write (Putint 12345)),
              (granting, Write (Putn (replicate 5000 65) 5000)), (granting, Reset),
              (granting, Write (Putc 66))]"

text \<open>The number of bytes a write is asked to append from a block or a string.\<close>

fun wlen :: "wcall \<Rightarrow> nat" where
  "wlen (Putn s len) = unat len"
| "wlen (Puts s) = strlen s"
| "wlen (Emit (Some s)) = strlen s"
| "wlen w = 0"

section \<open>Properties\<close>

subsection \<open>Word arithmetic and the growth loop\<close>

lemma half_iff: "(sz \<le> SIZE_MAX div 2) = (unat (sz::u64) < 2 ^ 63)"
  by (simp add: SIZE_MAX_def word_le_nat_alt) arith

lemma unat_dbl: "unat (sz::u64) < 2 ^ 63 \<Longrightarrow> unat (sz * 2) = unat sz * 2"
  by (simp add: unat_word_ariths)

lemma sub_less_iff:
  "unat (u::u64) \<le> unat a \<Longrightarrow> (a - u < n) = (unat a < unat u + unat n)"
  by (simp add: word_less_nat_alt unat_sub word_le_nat_alt) arith

lemma grow_loop_found:
  "0 < unat sz \<Longrightarrow> unat used \<le> unat sz \<Longrightarrow> unat sz * 2 ^ Suc k < 2 ^ 64 \<Longrightarrow>
   unat used + unat n \<le> unat sz * 2 ^ Suc k \<Longrightarrow>
   (\<forall>j. 1 \<le> j \<and> j \<le> k \<longrightarrow> unat sz * 2 ^ j < unat used + unat n) \<Longrightarrow>
   grow_loop used n sz = Some (Some (sz * 2 ^ Suc k))"
proof (induction k arbitrary: sz)
  case 0
  then have h: "unat sz < 2 ^ 63" by simp
  have d: "unat (sz * 2) = unat sz * 2" using h by (rule unat_dbl)
  have "\<not> (sz * 2 - used < n)"
    using 0 d by (subst sub_less_iff) auto
  then show ?case
    using h by (subst grow_loop.simps) (simp add: half_iff)
next
  case (Suc k)
  have "unat sz * 2 ^ 1 \<le> unat sz * 2 ^ Suc (Suc k)"
    by (intro mult_le_mono2 power_increasing) simp_all
  from le_less_trans [OF this Suc.prems(3)] have h: "unat sz < 2 ^ 63" by simp
  have d: "unat (sz * 2) = unat sz * 2" using h by (rule unat_dbl)
  have lt: "sz * 2 - used < n"
    using Suc.prems d by (subst sub_less_iff) (auto dest: spec [of _ 1])
  have rec: "grow_loop used n (sz * 2) = Some (Some (sz * 2 * 2 ^ Suc k))"
  proof (rule Suc.IH)
    show "0 < unat (sz * 2)" using Suc.prems d by simp
    show "unat used \<le> unat (sz * 2)" using Suc.prems d by simp
    show "unat (sz * 2) * 2 ^ Suc k < 2 ^ 64" using Suc.prems d by (simp add: mult.assoc)
    show "unat used + unat n \<le> unat (sz * 2) * 2 ^ Suc k"
      using Suc.prems d by (simp add: mult.assoc)
    show "\<forall>j. 1 \<le> j \<and> j \<le> k \<longrightarrow> unat (sz * 2) * 2 ^ j < unat used + unat n"
    proof (intro allI impI)
      fix j assume "1 \<le> j \<and> j \<le> k"
      then have "1 \<le> Suc j \<and> Suc j \<le> Suc k" by simp
      with Suc.prems(5) have "unat sz * 2 ^ Suc j < unat used + unat n" by blast
      then show "unat (sz * 2) * 2 ^ j < unat used + unat n" using d by (simp add: mult.assoc)
    qed
  qed
  show ?case
    using h lt rec by (subst grow_loop.simps) (simp add: half_iff mult.assoc)
qed

text \<open>The loop leaves whenever it starts from a size that is not zero.\<close>

lemma grow_loop_returns: "sz \<noteq> 0 \<Longrightarrow> \<exists>r. grow_loop used n sz = Some r"
proof (induction "2 ^ 64 - unat sz" arbitrary: sz rule: less_induct)
  case less
  show ?case
  proof (cases "sz \<le> SIZE_MAX div 2")
    case False
    then show ?thesis by (subst grow_loop.simps) simp
  next
    case True
    then have h: "unat sz < 2 ^ 63" by (simp add: half_iff)
    have d: "unat (sz * 2) = unat sz * 2" using h by (rule unat_dbl)
    have pos: "0 < unat sz" using less.prems by (simp add: unat_gt_0)
    have "\<exists>r. grow_loop used n (sz * 2) = Some r"
    proof (rule less.hyps)
      show "2 ^ 64 - unat (sz * 2) < 2 ^ 64 - unat sz" using d pos h by simp
      show "sz * 2 \<noteq> 0" using d pos by (metis mult_is_0 not_gr_zero unat_eq_0 zero_neq_numeral)
    qed
    then show ?thesis using True by (subst grow_loop.simps) auto
  qed
qed

lemma grow_loop_mono_aux:
  "grow_loop used n sz = Some r \<Longrightarrow>
   (\<forall>sz'. r = Some sz' \<longrightarrow> unat sz \<le> unat sz' \<and> \<not> (sz' - used < n))"
proof (rule grow_loop.raw_induct
    [where P = "\<lambda>used n sz r. \<forall>sz'. r = Some sz' \<longrightarrow> unat sz \<le> unat sz' \<and> \<not> (sz' - used < n)"])
  fix g :: "u64 \<Rightarrow> u64 \<Rightarrow> u64 \<Rightarrow> u64 option option" and used n sz r
  assume IH: "\<And>used n sz r. g used n sz = Some r \<Longrightarrow>
      \<forall>sz'. r = Some sz' \<longrightarrow> unat sz \<le> unat sz' \<and> \<not> (sz' - used < n)"
    and body: "(if sz \<le> SIZE_MAX div 2
      then if sz * 2 - used < n then g used n (sz * 2) else Some (Some (sz * 2))
      else Some None) = Some r"
  show "\<forall>sz'. r = Some sz' \<longrightarrow> unat sz \<le> unat sz' \<and> \<not> (sz' - used < n)"
  proof (cases "sz \<le> SIZE_MAX div 2")
    case False
    with body show ?thesis by auto
  next
    case True
    then have h: "unat sz < 2 ^ 63" by (simp add: half_iff)
    have d: "unat (sz * 2) = unat sz * 2" using h by (rule unat_dbl)
    show ?thesis
    proof (cases "sz * 2 - used < n")
      case True
      with body \<open>sz \<le> SIZE_MAX div 2\<close> have "g used n (sz * 2) = Some r" by simp
      from IH [OF this] show ?thesis using d by auto
    next
      case False
      with body \<open>sz \<le> SIZE_MAX div 2\<close> have "r = Some (sz * 2)" by simp
      then show ?thesis using d False by simp
    qed
  qed
qed

lemma grow_loop_mono:
  "grow_loop used n sz = Some (Some sz') \<Longrightarrow> unat sz \<le> unat sz' \<and> \<not> (sz' - used < n)"
  using grow_loop_mono_aux by blast

subsection \<open>What fbuf_grow returns\<close>

lemma fbuf_grow_room:
  "buf_f f \<noteq> None \<Longrightarrow> size_f f \<noteq> 0 \<Longrightarrow> n \<le> size_f f - used_f f \<Longrightarrow>
   fbuf_grow cfg os f n = Some (Returns (0, f))"
  by (simp add: fbuf_grow_def)

lemma initializedD:
  "initialized f \<Longrightarrow> \<exists>bs. buf_f f = Some bs \<and> size_f f \<noteq> 0 \<and> unat (used_f f) \<le> length bs
     \<and> length bs \<le> unat (size_f f)"
  by (auto simp: initialized_def split: option.splits)

lemma initialized_used_le: "initialized f \<Longrightarrow> used_f f \<le> size_f f"
  by (auto simp: initialized_def word_le_nat_alt split: option.splits)

lemma length_resized: "length (resized fill bs n) = n"
  by (simp add: resized_def)

lemma fbuf_grow_result:
  "fbuf_grow cfg os f n = Some (Returns (g, f1)) \<Longrightarrow>
   f1 = f \<or> (\<exists>sz tmp. g = 0 \<and> f1 = f\<lparr>buf_f := Some tmp, size_f := sz\<rparr> \<and>
                 grow_realloc cfg os f sz = Some tmp \<and>
                 grow_loop (used_f f) n (size_f f) = Some (Some sz))"
  by (auto simp: fbuf_grow_def split: if_splits option.splits)

lemma grow_realloc_length:
  "grow_realloc cfg os f sz = Some tmp \<Longrightarrow>
   length tmp = (if linux cfg then unat sz else unat (size_f f))"
  by (auto simp: grow_realloc_def length_resized split: if_splits option.splits)

lemma unat_u64_less: "unat (w::u64) < 18446744073709551616"
proof -
  have "unat w < 2 ^ LENGTH(64)" by (rule unsigned_less)
  then show ?thesis by simp
qed

lemma grow_length_bound:
  assumes "fbuf_grow cfg os f n = Some (Returns (g, f1))"
    and "\<forall>bs. buf_f f = Some bs \<longrightarrow> length bs < 2 ^ 64"
  shows "\<forall>bs1. buf_f f1 = Some bs1 \<longrightarrow> length bs1 < 2 ^ 64"
proof -
  from fbuf_grow_result [OF assms(1)] show ?thesis
  proof
    assume "f1 = f"
    with assms(2) show ?thesis by simp
  next
    assume "\<exists>sz tmp. g = 0 \<and> f1 = f\<lparr>buf_f := Some tmp, size_f := sz\<rparr> \<and>
                 grow_realloc cfg os f sz = Some tmp \<and>
                 grow_loop (used_f f) n (size_f f) = Some (Some sz)"
    then obtain sz tmp where f1: "f1 = f\<lparr>buf_f := Some tmp, size_f := sz\<rparr>"
      and re: "grow_realloc cfg os f sz = Some tmp" by blast
    show ?thesis using f1 grow_realloc_length [OF re] by (simp add: unat_u64_less)
  qed
qed

lemma unat_max: "unat (- 1 :: u64) = 2 ^ 64 - 1"
  by (simp add: unsigned_minus_1_eq_mask mask_eq_exp_minus_1)

lemma word_less_succ: "((u::u64) + 1 < u) = (u = - 1)"
proof (cases "unat u + 1 < 2 ^ 64")
  case True
  then have "unat (u + 1) = unat u + 1" by (simp add: unat_word_ariths)
  moreover have "u \<noteq> - 1" using True by (auto simp: unat_max)
  ultimately show ?thesis by (simp add: word_less_nat_alt)
next
  case False
  have "unat u < 2 ^ 64" by (simp add: unat_u64_less)
  with False have e: "unat u = 2 ^ 64 - 1" by simp
  then have "unat u = unat (- 1 :: u64)" by (simp add: unat_max)
  then have u: "u = - 1" by (simp only: word_unat_eq_iff)
  show ?thesis unfolding u by (simp add: word_gt_0)
qed

lemma fbuf_at_after_incr:
  "buf_f f1 = Some bs \<Longrightarrow>
   fbuf_at (f1\<lparr>used_f := used_f f1 + 1\<rparr>) (used_f f1) =
     (if used_f f1 = - 1 then Null else Addr (unat (used_f f1)))"
  by (simp add: fbuf_at_def word_less_succ)

lemma putc_putn_tail:
  assumes "\<forall>bs. buf_f f1 = Some bs \<longrightarrow> length bs < 2 ^ 64"
  shows "(case fbuf_at (f1\<lparr>used_f := used_f f1 + 1\<rparr>) (used_f f1) of
               Addr i \<Rightarrow>
                 (case buf_f (f1\<lparr>used_f := used_f f1 + 1\<rparr>) of
                    None \<Rightarrow> Some Fault
                  | Some bs \<Rightarrow>
                      (case mem_write bs i [c] of
                         None \<Rightarrow> Some Fault
                       | Some bs' \<Rightarrow>
                           Some (Returns (1, f1\<lparr>used_f := used_f f1 + 1, buf_f := Some bs'\<rparr>))))
             | _ \<Rightarrow> Some Fault) =
         (case buf_f f1 of
                 None \<Rightarrow> Some Fault
               | Some bs \<Rightarrow>
                   (case mem_write bs (unat (used_f f1)) [c] of
                      None \<Rightarrow> Some Fault
                    | Some bs' \<Rightarrow>
                        Some (Returns (ucast (1::u64),
                                f1\<lparr>buf_f := Some bs', used_f := used_f f1 + 1\<rparr>))))"
proof (cases "buf_f f1")
  case None
  then show ?thesis by (simp add: fbuf_at_def)
next
  case (Some bs)
  from assms Some have len: "length bs < 2 ^ 64" by simp
  show ?thesis
  proof (cases "used_f f1 = - 1")
    case True
    then have "unat (used_f f1) = 2 ^ 64 - 1" by (simp add: unat_max)
    with len have "mem_write bs (unat (used_f f1)) [c] = None" by (simp add: mem_write_def)
    then show ?thesis using Some True by (simp add: fbuf_at_def word_gt_0)
  next
    case False
    then show ?thesis using Some
      by (simp add: fbuf_at_after_incr split: option.splits)
  qed
qed

text \<open>
  Every call of \<^verbatim>\<open>fbuf_grow\<close>, and so of each write, comes back (with a value, at a failed
  assertion or at a fault), unless the capacity is zero and assertions are compiled out.
\<close>

lemma fbuf_grow_returns:
  assumes "size_f f \<noteq> 0 \<or> \<not> ndebug cfg"
  shows "\<exists>r. fbuf_grow cfg os f n = Some r"
proof (cases "size_f f = 0")
  case True
  with assms show ?thesis by (simp add: fbuf_grow_def)
next
  case False
  from grow_loop_returns [OF False, of "used_f f" n]
  obtain r where "grow_loop (used_f f) n (size_f f) = Some r" ..
  then show ?thesis by (simp add: fbuf_grow_def split: option.splits)
qed

lemma seq_comes_back:
  "\<exists>r. m = Some r \<Longrightarrow> (\<And>x. \<exists>r. k x = Some r) \<Longrightarrow> \<exists>r. seq m k = Some r"
  by (cases "(m, k)" rule: seq.cases) auto

lemma fbuf_write_returns:
  assumes "size_f f \<noteq> 0 \<or> \<not> ndebug cfg"
  shows "\<exists>r. fbuf_write cfg os f w = Some r"
proof -
  have g: "\<And>n. \<exists>r. fbuf_grow cfg os f n = Some r" using assms by (rule fbuf_grow_returns)
  have putn: "\<And>s len. \<exists>r. fbuf_putn cfg os f s len = Some r"
    unfolding fbuf_putn_def
    by (rule seq_comes_back [OF g]) (auto split: option.splits)
  show ?thesis
  proof (cases w)
    case (Putc c)
    have "\<exists>r. fbuf_putc cfg os f c = Some r"
      unfolding fbuf_putc_def
      by (rule seq_comes_back [OF g]) (auto simp: Let_def split: option.splits cptr.splits)
    with Putc show ?thesis by simp
  next
    case (Putn s len)
    with putn show ?thesis by simp
  next
    case (Puts s)
    with putn show ?thesis by (simp add: fbuf_puts_def)
  next
    case (Putint n)
    have "\<exists>r. fbuf_putint cfg os f n = Some r"
      unfolding fbuf_putint_def
      by (rule seq_comes_back [OF g]) (auto simp: Let_def split_def split: option.splits)
    with Putint show ?thesis by simp
  next
    case (Printf out)
    have "\<exists>r. fbuf_printf cfg os f out = Some r"
      unfolding fbuf_printf_def
      by (rule seq_comes_back [OF g]) (auto simp: Let_def split_def split: option.splits)
    with Printf show ?thesis by simp
  next
    case (Emit esc)
    show ?thesis
    proof (cases esc)
      case None
      with Emit show ?thesis by (simp add: fbuf_emit_def)
    next
      case (Some s)
      have "\<exists>r. fbuf_puts cfg os f s = Some r" using putn by (simp add: fbuf_puts_def)
      then have "\<exists>r. seq (fbuf_puts cfg os f s) (\<lambda>(r, f1).
            if r <s 0 then Some (Returns (- 1, f1)) else Some (Returns (0, f1))) = Some r"
        by (rule seq_comes_back) auto
      with Emit Some show ?thesis by (simp add: fbuf_emit_def)
    qed
  qed
qed

subsection \<open>Single bytes and empty writes\<close>

text \<open>
  Claim C9. On an initialized buffer \<^verbatim>\<open>fbuf_putc(f, c)\<close> and \<^verbatim>\<open>fbuf_putn(f, s, 1)\<close> with \<open>s\<close> holding the
  one byte \<open>c\<close> are the same call: the same outcome (return value, abort, fault) and the same
  buffer afterwards, whatever the platform and whatever the system answers.
\<close>

theorem putc_is_putn:
  assumes "initialized f"
  shows "fbuf_putc cfg os f c = fbuf_putn cfg os f [c] 1"
proof -
  have ini: "\<forall>bs. buf_f f = Some bs \<longrightarrow> length bs < 2 ^ 64"
  proof (intro allI impI)
    fix bs assume "buf_f f = Some bs"
    with assms have "length bs \<le> unat (size_f f)" by (simp add: initialized_def)
    then show "length bs < 2 ^ 64"
      using unat_u64_less [of "size_f f"] by simp
  qed
  show ?thesis
  proof (cases "fbuf_grow cfg os f 1")
    case None
    then show ?thesis by (simp add: fbuf_putc_def fbuf_putn_def)
  next
    case (Some r)
    show ?thesis
    proof (cases r)
      case (Returns p)
      obtain g f1 where p: "p = (g, f1)" by (cases p)
      have "fbuf_grow cfg os f 1 = Some (Returns (g, f1))" using Some Returns p by simp
      note tail = putc_putn_tail [OF grow_length_bound [OF this ini], of c]
      show ?thesis
        using Some Returns p
        by (simp add: fbuf_putc_def fbuf_putn_def Let_def mem_read_def tail)
    qed (use Some in \<open>simp_all add: fbuf_putc_def fbuf_putn_def\<close>)
  qed
qed

theorem putc_is_putn_witness:
  "initialized (small_buffer 4096) \<and>
   fbuf_putc linux_cfg granting (small_buffer 4096) 65 =
   fbuf_putn linux_cfg granting (small_buffer 4096) [65] 1"
  using putc_is_putn [of "small_buffer 4096" linux_cfg granting 65]
  by (simp add: initialized_def small_buffer_def)

text \<open>
  Claim C10. On an initialized buffer \<^verbatim>\<open>fbuf_putn\<close> with length \<open>0\<close> returns \<open>0\<close> and leaves the whole
  structure as it was: capacity, length, region and every byte of it.
\<close>

theorem putn_nothing:
  "initialized f \<Longrightarrow> fbuf_putn cfg os f s 0 = Some (Returns (0, f))"
  by (auto dest!: initializedD simp: fbuf_putn_def fbuf_grow_room mem_read_def mem_write_def)

theorem putn_nothing_witness:
  "initialized (small_buffer 5) \<and>
   fbuf_putn linux_cfg granting (small_buffer 5) [1, 2, 3] 0 = Some (Returns (0, small_buffer 5))"
  using putn_nothing [of "small_buffer 5" linux_cfg granting "[1, 2, 3]"]
  by (simp add: initialized_def small_buffer_def)

subsection \<open>Addresses\<close>




subsection \<open>Finalisation\<close>

lemma content_length: "initialized f \<Longrightarrow> length (content f) = unat (used_f f)"
  by (auto simp: initialized_def content_def split: option.splits)

text \<open>
  Claim C5. On an initialized buffer \<^verbatim>\<open>fbuf_finalize(f, fp, flushfp)\<close> returns, with the buffer
  released (no region, capacity and length zero) in every case. It calls \<^verbatim>\<open>fwrite\<close> once when
  the length is not zero and not at all otherwise, with the bytes at offsets \<open>[0, length)\<close>:
  the stream takes them all, or as many as it has room for when the write fails. It calls
  \<^verbatim>\<open>fflush\<close> once when \<open>flushfp\<close> is set and the write did not fail, and not otherwise. The
  result is \<open>0\<close> when the write (if made) and the flush (if asked for) succeeded, and \<open>-1\<close>
  otherwise.
\<close>

theorem finalize_writes_flushes_releases:
  assumes "initialized f"
  shows "\<exists>ret fp'. fbuf_finalize f fp flushfp = Returns (ret, fbuf_free f, fp') \<and>
           buf_f (fbuf_free f) = None \<and> size_f (fbuf_free f) = 0 \<and> used_f (fbuf_free f) = 0 \<and>
           written fp' = written fp @ take (room fp) (content f) \<and>
           fwrite_calls fp' = fwrite_calls fp + (if used_f f = 0 then 0 else 1) \<and>
           fflush_calls fp' =
             fflush_calls fp + (if flushfp \<and> length (content f) \<le> room fp then 1 else 0) \<and>
           (ret = 0 \<or> ret = - 1) \<and>
           (ret = 0 \<longleftrightarrow> length (content f) \<le> room fp \<and> (flushfp \<longrightarrow> flush_ok fp))"
proof -
  from assms obtain bs where bs: "buf_f f = Some bs" and u: "unat (used_f f) \<le> length bs"
    by (auto simp: initialized_def split: option.splits)
  have free: "buf_f (fbuf_free f) = None \<and> size_f (fbuf_free f) = 0 \<and> used_f (fbuf_free f) = 0"
    using bs by (simp add: fbuf_free_def)
  have c: "content f = take (unat (used_f f)) bs" using bs by (simp add: content_def)
  have len: "length (content f) = unat (used_f f)" using c u by simp
  show ?thesis
  proof (cases "used_f f = 0")
    case True
    then have "content f = []" using c by simp
    then show ?thesis
      using True free
      by (simp add: fbuf_finalize_def c_fflush_def c_EOF_def split_def)
  next
    case False
    show ?thesis
    proof (cases "unat (used_f f) \<le> room fp")
      case True
      then have "take (room fp) (content f) = content f" using len by simp
      then show ?thesis
        using \<open>used_f f \<noteq> 0\<close> True free bs u len
        by (simp add: fbuf_finalize_def mem_read_def c_fwrite_def c_fflush_def c_EOF_def
            split_def c [symmetric])
    next
      case False
      then show ?thesis
        using \<open>used_f f \<noteq> 0\<close> free bs u len
        by (simp add: fbuf_finalize_def mem_read_def c_fwrite_def c_EOF_def
            split_def c [symmetric])
    qed
  qed
qed

theorem finalize_witness:
  "initialized (small_buffer 0) \<and>
   fbuf_finalize (small_buffer 0) sink0 True =
     Returns (0, \<lparr>size_f = 0, used_f = 0, buf_f = None\<rparr>, sink0\<lparr>fflush_calls := 1\<rparr>)"
proof -
  have h: "initialized (small_buffer 0)"
    by (simp add: initialized_def small_buffer_def)
  from finalize_writes_flushes_releases [OF h, of sink0 True]
  obtain ret fp' where
    r: "fbuf_finalize (small_buffer 0) sink0 True = Returns (ret, fbuf_free (small_buffer 0), fp')"
    by blast
  have "fbuf_free (small_buffer 0) = \<lparr>size_f = 0, used_f = 0, buf_f = None\<rparr>"
    by (simp add: fbuf_free_def small_buffer_def)
  moreover have "ret = 0 \<and> fp' = sink0\<lparr>fflush_calls := 1\<rparr>"
    using r
    by (simp add: small_buffer_def sink0_def fbuf_finalize_def c_fflush_def c_EOF_def)
  ultimately show ?thesis using h r by simp
qed

subsection \<open>Writes that grow the buffer\<close>

lemma unat_mult_pow:
  "unat (sz::u64) * 2 ^ k < 2 ^ 64 \<Longrightarrow> unat (sz * 2 ^ k) = unat sz * 2 ^ k"
proof (induction k)
  case 0
  then show ?case by simp
next
  case (Suc k)
  have "unat sz * 2 ^ k \<le> unat sz * 2 ^ Suc k" by simp
  from le_less_trans [OF this Suc.prems] have lt: "unat sz * 2 ^ k < 2 ^ 64" .
  from Suc.IH [OF lt] have e: "unat (sz * 2 ^ k) = unat sz * 2 ^ k" .
  from Suc.prems have "unat sz * 2 ^ k * 2 < 2 ^ 64" by (simp add: mult.assoc)
  with e have "unat (sz * 2 ^ k) < 2 ^ 63" by simp
  from unat_dbl [OF this] e have "unat (sz * 2 ^ k * 2) = unat sz * 2 ^ k * 2" by simp
  then show ?case by (simp add: mult.assoc mult.commute mult.left_commute)
qed

lemma putn_write:
  assumes g: "fbuf_grow cfg os f len = Some (Returns (0, f1))"
    and b: "buf_f f1 = Some bs1"
    and fit: "unat (used_f f1) + unat len \<le> length bs1"
    and s: "length s = unat len"
  shows "fbuf_putn cfg os f s len =
         Some (Returns (ucast len,
           f1\<lparr>buf_f := Some (take (unat (used_f f1)) bs1 @ s @
                                drop (unat (used_f f1) + unat len) bs1),
              used_f := used_f f1 + len\<rparr>))"
  using fit by (simp add: fbuf_putn_def g b mem_read_def mem_write_def s)

lemma unat_add_fit:
  "unat (a::u64) + unat b \<le> unat (c::u64) \<Longrightarrow> unat (a + b) = unat a + unat b"
  using unat_u64_less [of c] by (simp add: unat_word_ariths)

lemma grow_linux_backed:
  assumes lx: "linux cfg" and ok: "alloc_ok os"
    and b: "buf_f f = Some bs" and nz: "size_f f \<noteq> 0"
    and u: "unat (used_f f) \<le> unat (size_f f)"
    and fits: "unat (size_f f) * 2 ^ k < 2 ^ 64"
      "unat (used_f f) + unat len \<le> unat (size_f f) * 2 ^ k"
    and least: "\<forall>j<k. unat (size_f f) * 2 ^ j < unat (used_f f) + unat len"
  shows "fbuf_grow cfg os f len =
         Some (Returns (0, if k = 0 then f
                           else f\<lparr>buf_f := Some (resized (fresh os) bs (unat (size_f f * 2 ^ k))),
                                  size_f := size_f f * 2 ^ k\<rparr>))"
proof (cases k)
  case 0
  with fits have "\<not> (size_f f - used_f f < len)"
    using u by (subst sub_less_iff) auto
  then have "len \<le> size_f f - used_f f" by simp
  then show ?thesis using 0 b nz by (simp add: fbuf_grow_room)
next
  case (Suc k')
  have pos: "0 < unat (size_f f)" using nz by (simp add: unat_gt_0)
  from least Suc have "unat (size_f f) * 2 ^ 0 < unat (used_f f) + unat len" by blast
  then have lt: "size_f f - used_f f < len"
    using u by (subst sub_less_iff) auto
  have loop: "grow_loop (used_f f) len (size_f f) = Some (Some (size_f f * 2 ^ Suc k'))"
  proof (rule grow_loop_found [OF pos u])
    show "unat (size_f f) * 2 ^ Suc k' < 2 ^ 64" using fits Suc by simp
    show "unat (used_f f) + unat len \<le> unat (size_f f) * 2 ^ Suc k'" using fits Suc by simp
    show "\<forall>j. 1 \<le> j \<and> j \<le> k' \<longrightarrow> unat (size_f f) * 2 ^ j < unat (used_f f) + unat len"
      using least Suc by auto
  qed
  have "\<not> (len \<le> size_f f - used_f f)" using lt by simp
  then show ?thesis
    using Suc b nz loop lx ok
    by (simp add: fbuf_grow_def grow_realloc_def)
qed

lemma putn_grows:
  assumes lx: "linux cfg" and ok: "alloc_ok os"
    and ini: "initialized f" and bk: "backed f" and s: "length s = unat len"
    and fits: "unat (size_f f) * 2 ^ k < 2 ^ 64"
      "unat (used_f f) + unat len \<le> unat (size_f f) * 2 ^ k"
    and least: "\<forall>j<k. unat (size_f f) * 2 ^ j < unat (used_f f) + unat len"
  shows "\<exists>f'. fbuf_putn cfg os f s len = Some (Returns (ucast len, f')) \<and>
           used_f f' = used_f f + len \<and>
           unat (used_f f') = unat (used_f f) + unat len \<and>
           content f' = content f @ s \<and>
           size_f f' = size_f f * 2 ^ k \<and>
           unat (size_f f') = unat (size_f f) * 2 ^ k \<and>
           initialized f' \<and> backed f'"
proof -
  from ini bk obtain bs where b: "buf_f f = Some bs" and nz: "size_f f \<noteq> 0"
    and lb: "length bs = unat (size_f f)" and ub: "unat (used_f f) \<le> length bs"
    by (auto simp: initialized_def backed_def split: option.splits)
  have u: "unat (used_f f) \<le> unat (size_f f)" using lb ub by simp
  define f1 where "f1 = (if k = 0 then f
     else f\<lparr>buf_f := Some (resized (fresh os) bs (unat (size_f f * 2 ^ k))),
            size_f := size_f f * 2 ^ k\<rparr>)"
  define bs1 where "bs1 = (if k = 0 then bs else resized (fresh os) bs (unat (size_f f * 2 ^ k)))"
  have g: "fbuf_grow cfg os f len = Some (Returns (0, f1))"
    unfolding f1_def by (rule grow_linux_backed [OF lx ok b nz u fits least])
  have sz: "unat (size_f f * 2 ^ k) = unat (size_f f) * 2 ^ k"
    by (rule unat_mult_pow [OF fits(1)])
  have b1: "buf_f f1 = Some bs1" by (simp add: f1_def bs1_def b)
  have u1: "used_f f1 = used_f f" by (simp add: f1_def)
  have s1: "size_f f1 = size_f f * 2 ^ k" by (simp add: f1_def)
  have l1: "length bs1 = unat (size_f f) * 2 ^ k"
    by (simp add: bs1_def lb length_resized sz)
  have ge: "length bs \<le> length bs1" using l1 lb by simp
  have pre: "take (unat (used_f f)) bs1 = take (unat (used_f f)) bs"
    using ub lb sz by (simp add: bs1_def resized_def)
  have fit: "unat (used_f f1) + unat len \<le> length bs1" using fits(2) l1 u1 by simp
  define f' where "f' = f1\<lparr>buf_f := Some (take (unat (used_f f1)) bs1 @ s @
                                drop (unat (used_f f1) + unat len) bs1),
              used_f := used_f f1 + len\<rparr>"
  have r: "fbuf_putn cfg os f s len = Some (Returns (ucast len, f'))"
    unfolding f'_def by (rule putn_write [OF g b1 fit s])
  have ua: "unat (used_f f + len) = unat (used_f f) + unat len"
    by (rule unat_add_fit [of _ _ "size_f f * 2 ^ k"]) (use fits(2) sz in simp)
  have c: "content f' = content f @ s"
    using ub by (simp add: f'_def content_def u1 ua b pre s)
  have nz': "size_f f * 2 ^ k \<noteq> 0"
  proof
    assume "size_f f * 2 ^ k = 0"
    then have "unat (size_f f * 2 ^ k) = 0" by simp
    with sz have "unat (size_f f) = 0" by simp
    with nz show False by (simp add: unat_eq_0)
  qed
  have len': "length (take (unat (used_f f)) bs1 @ s @ drop (unat (used_f f) + unat len) bs1)
      = length bs1"
    using fit u1 s by simp
  have "initialized f'" "backed f'"
    using fit l1 nz' sz s
    by (simp_all add: initialized_def backed_def f'_def u1 s1 ua)
  then show ?thesis
    using r c ua sz by (auto simp: f'_def u1 s1)
qed

lemma unat_of_nat_u64: "n < 2 ^ 64 \<Longrightarrow> unat (word_of_nat n :: u64) = n"
  by (simp add: unsigned_of_nat take_bit_nat_eq_self)

lemma small_buffer_ok: "unat u \<le> 4096 \<Longrightarrow> initialized (small_buffer u) \<and> backed (small_buffer u)"
  by (simp add: initialized_def backed_def small_buffer_def)

lemma put_all_grows:
  assumes lx: "linux cfg" and ok: "\<forall>w\<in>set ws. alloc_ok (fst w)"
    and ini: "initialized f" and bk: "backed f"
    and fits: "unat (size_f f) * 2 ^ K < 2 ^ 64"
      "unat (used_f f) + length (concat (map snd ws)) \<le> unat (size_f f) * 2 ^ K"
  shows "\<exists>f' k. put_all cfg ws f =
             Some (Returns (map (\<lambda>w. ucast (word_of_nat (length (snd w)) :: u64)) ws, f')) \<and>
           content f' = content f @ concat (map snd ws) \<and>
           unat (used_f f') = unat (used_f f) + length (concat (map snd ws)) \<and>
           initialized f' \<and> backed f' \<and>
           k \<le> K \<and> size_f f' = size_f f * 2 ^ k \<and>
           unat (used_f f') \<le> unat (size_f f) * 2 ^ k \<and>
           (\<forall>j<k. unat (size_f f) * 2 ^ j < unat (used_f f'))"
  using ok ini bk fits
proof (induction ws arbitrary: f K)
  case Nil
  from Nil.prems(2,3) have "unat (used_f f) \<le> unat (size_f f)"
    by (auto simp: initialized_def backed_def split: option.splits)
  then show ?case using Nil.prems by (intro exI [of _ f] exI [of _ 0]) simp
next
  case (Cons w ws)
  obtain os s where w: "w = (os, s)" by (cases w)
  let ?u = "unat (used_f f)" and ?z = "unat (size_f f)"
  let ?rest = "concat (map snd ws)"
  from Cons.prems(1) w have ok1: "alloc_ok os" and okr: "\<forall>w\<in>set ws. alloc_ok (fst w)" by auto
  have tot: "?u + (length s + length ?rest) \<le> ?z * 2 ^ K" using Cons.prems(5) w by simp
  have sl: "length s < 2 ^ 64" using tot Cons.prems(4) by simp
  have ul: "unat (word_of_nat (length s) :: u64) = length s" by (rule unat_of_nat_u64 [OF sl])
  define k1 where "k1 = (LEAST k. ?u + length s \<le> ?z * 2 ^ k)"
  have ex: "?u + length s \<le> ?z * 2 ^ K" using tot by simp
  have k1: "?u + length s \<le> ?z * 2 ^ k1" unfolding k1_def by (rule LeastI [of _ K]) (rule ex)
  have k1K: "k1 \<le> K" unfolding k1_def by (rule Least_le) (rule ex)
  have min1: "\<forall>j<k1. ?z * 2 ^ j < ?u + length s"
    unfolding k1_def using not_less_Least by (metis (lifting) linorder_not_less)
  have "?z * 2 ^ k1 \<le> ?z * 2 ^ K" using k1K by simp
  from le_less_trans [OF this Cons.prems(4)] have f1: "?z * 2 ^ k1 < 2 ^ 64" .
  from putn_grows [OF lx ok1 Cons.prems(2,3), of s "word_of_nat (length s)" k1] ul f1 k1 min1
  obtain f1 where p: "fbuf_putn cfg os f s (word_of_nat (length s)) =
        Some (Returns (ucast (word_of_nat (length s) :: u64), f1))"
    and u1: "unat (used_f f1) = ?u + length s"
    and c1: "content f1 = content f @ s"
    and s1: "size_f f1 = size_f f * 2 ^ k1"
    and z1: "unat (size_f f1) = ?z * 2 ^ k1"
    and i1: "initialized f1" and b1: "backed f1"
    by auto
  have pw: "(2::nat) ^ k1 * 2 ^ (K - k1) = 2 ^ K" using k1K by (simp flip: power_add)
  have fits1: "unat (size_f f1) * 2 ^ (K - k1) < 2 ^ 64"
    using Cons.prems(4) by (simp add: z1 mult.assoc pw)
  have fits2: "unat (used_f f1) + length ?rest \<le> unat (size_f f1) * 2 ^ (K - k1)"
    using tot by (simp add: z1 u1 mult.assoc pw)
  from Cons.IH [OF okr i1 b1 fits1 fits2]
  obtain f' k2 where r: "put_all cfg ws f1 =
        Some (Returns (map (\<lambda>w. ucast (word_of_nat (length (snd w)) :: u64)) ws, f'))"
    and c': "content f' = content f1 @ ?rest"
    and u': "unat (used_f f') = unat (used_f f1) + length ?rest"
    and i': "initialized f'" and b': "backed f'"
    and k2: "k2 \<le> K - k1" and s': "size_f f' = size_f f1 * 2 ^ k2"
    and le': "unat (used_f f') \<le> unat (size_f f1) * 2 ^ k2"
    and min2: "\<forall>j<k2. unat (size_f f1) * 2 ^ j < unat (used_f f')"
    by blast
  have run: "put_all cfg (w # ws) f =
      Some (Returns (map (\<lambda>w. ucast (word_of_nat (length (snd w)) :: u64)) (w # ws), f'))"
    by (simp add: w p r)
  have sz: "size_f f' = size_f f * 2 ^ (k1 + k2)" by (simp add: s' s1 power_add mult.assoc)
  have le: "unat (used_f f') \<le> ?z * 2 ^ (k1 + k2)"
    using le' by (simp add: z1 power_add mult.assoc)
  have min: "\<forall>j<k1 + k2. ?z * 2 ^ j < unat (used_f f')"
  proof (intro allI impI)
    fix j assume j: "j < k1 + k2"
    show "?z * 2 ^ j < unat (used_f f')"
    proof (cases "j < k1")
      case True
      with min1 have "?z * 2 ^ j < ?u + length s" by blast
      then show ?thesis using u' u1 by simp
    next
      case False
      then have "j - k1 < k2" using j by simp
      with min2 have "unat (size_f f1) * 2 ^ (j - k1) < unat (used_f f')" by blast
      moreover have "(2::nat) ^ k1 * 2 ^ (j - k1) = 2 ^ j" using False by (simp flip: power_add)
      ultimately show ?thesis by (simp add: z1 mult.assoc)
    qed
  qed
  show ?case
    apply (rule exI [of _ f'])
    apply (rule exI [of _ "k1 + k2"])
    using run c' c1 u' u1 i' b' k2 k1K sz le min w
    apply simp
    done
qed

lemma sint_of_nat_small: "n \<le> 2147483647 \<Longrightarrow> sint (word_of_nat n :: cint) = int n"
  by (simp add: signed_of_nat signed_take_bit_int_eq_self)

lemma sint_ucast_of_nat:
  assumes "n < 2 ^ 31"
  shows "sint (ucast (word_of_nat n :: u64) :: cint) = int n"
proof -
  from assms have "n < 2 ^ 64" by simp
  then have u: "unat (word_of_nat n :: u64) = n" by (rule unat_of_nat_u64)
  have e: "(word_of_nat (unat (word_of_nat n :: u64)) :: cint) = ucast (word_of_nat n :: u64)"
    by simp
  have "(ucast (word_of_nat n :: u64) :: cint) = word_of_nat n"
    by (rule e [unfolded u, symmetric])
  moreover have "sint (word_of_nat n :: cint) = int n"
    by (rule sint_of_nat_small) (use assms in simp)
  ultimately show ?thesis by (simp only:)
qed

text \<open>
  Claim C1, as the code has it. On the Linux path, when the system grants every remapping:
  take an initialized buffer whose region is as long as its capacity, and blocks to write,
  each shorter than \<open>2 ^ 31\<close> bytes, such that some \<open>capacity * 2 ^ K\<close> that is not above
  \<^verbatim>\<open>SIZE_MAX / 2\<close> holds the length and all of them. Then every \<^verbatim>\<open>fbuf_putn\<close> returns the length of
  its block, the logical content afterwards is the old content followed by the blocks, in
  order, and the capacity afterwards is \<open>capacity * 2 ^ k\<close> for the least \<open>k\<close> for which that holds
  the final length; it is not above \<^verbatim>\<open>SIZE_MAX / 2\<close>.
\<close>

theorem growth_is_transparent:
  assumes lx: "linux cfg"
    and ok: "\<forall>w\<in>set ws. alloc_ok (fst w) \<and> length (snd w) < 2 ^ 31"
    and ini: "initialized f" and bk: "backed f"
    and margin: "unat (size_f f) * 2 ^ K \<le> unat (SIZE_MAX div 2)"
    and fits: "unat (used_f f) + length (concat (map snd ws)) \<le> unat (size_f f) * 2 ^ K"
  shows "\<exists>rs f' k. put_all cfg ws f = Some (Returns (rs, f')) \<and>
           map sint rs = map (\<lambda>w. int (length (snd w))) ws \<and>
           content f' = content f @ concat (map snd ws) \<and>
           unat (used_f f') = unat (used_f f) + length (concat (map snd ws)) \<and>
           initialized f' \<and> backed f' \<and>
           k \<le> K \<and> size_f f' = size_f f * 2 ^ k \<and>
           unat (size_f f') = unat (size_f f) * 2 ^ k \<and>
           size_f f' \<le> SIZE_MAX div 2 \<and>
           unat (used_f f') \<le> unat (size_f f') \<and>
           (\<forall>j<k. unat (size_f f) * 2 ^ j < unat (used_f f'))"
proof -
  have half: "unat (SIZE_MAX div 2) = 2 ^ 63 - 1" by (simp add: SIZE_MAX_def)
  from margin have lt63: "unat (size_f f) * 2 ^ K < 2 ^ 63" by (simp add: half)
  then have lt: "unat (size_f f) * 2 ^ K < 2 ^ 64" by simp
  from ok have ok': "\<forall>w\<in>set ws. alloc_ok (fst w)" by blast
  from put_all_grows [OF lx ok' ini bk lt fits]
  obtain f' k where r: "put_all cfg ws f =
        Some (Returns (map (\<lambda>w. ucast (word_of_nat (length (snd w)) :: u64)) ws, f'))"
    and c: "content f' = content f @ concat (map snd ws)"
    and u: "unat (used_f f') = unat (used_f f) + length (concat (map snd ws))"
    and i: "initialized f'" and b: "backed f'"
    and k: "k \<le> K" and s: "size_f f' = size_f f * 2 ^ k"
    and le: "unat (used_f f') \<le> unat (size_f f) * 2 ^ k"
    and least: "\<forall>j<k. unat (size_f f) * 2 ^ j < unat (used_f f')"
    by blast
  have rets: "map sint (map (\<lambda>w. ucast (word_of_nat (length (snd w)) :: u64) :: cint) ws) =
      map (\<lambda>w. int (length (snd w))) ws"
  proof (simp, intro ballI)
    fix w assume "w \<in> set ws"
    with ok have n: "length (snd w) < 2 ^ 31" by blast
    show "sint (ucast (word_of_nat (length (snd w)) :: u64) :: cint) = int (length (snd w))"
      by (rule sint_ucast_of_nat [OF n])
  qed
  have "unat (size_f f) * 2 ^ k \<le> unat (size_f f) * 2 ^ K" using k by simp
  from le_less_trans [OF this lt63] have k63: "unat (size_f f) * 2 ^ k < 2 ^ 63" .
  then have "unat (size_f f) * 2 ^ k < 2 ^ 64" by simp
  from unat_mult_pow [OF this] have z: "unat (size_f f') = unat (size_f f) * 2 ^ k"
    by (simp add: s)
  have hf: "size_f f' \<le> SIZE_MAX div 2" using k63 z by (simp add: half_iff)
  show ?thesis
    using r rets c u i b k s z hf le least by auto
qed

theorem growth_is_transparent_witness:
  "linux linux_cfg \<and> alloc_ok granting \<and> initialized (small_buffer 0) \<and> backed (small_buffer 0) \<and>
   (\<exists>f'. put_all linux_cfg [(granting, replicate 5000 65)] (small_buffer 0) =
            Some (Returns ([5000], f')) \<and>
         size_f f' = 8192 \<and> used_f f' = 5000 \<and> content f' = replicate 5000 65)"
proof -
  have lx: "linux linux_cfg" by (simp add: linux_cfg_def)
  have ok: "\<forall>w\<in>set [(granting, replicate 5000 (65::byte))].
      alloc_ok (fst w) \<and> length (snd w) < 2 ^ 31"
    by (simp add: granting_def)
  have ib: "initialized (small_buffer 0)" "backed (small_buffer 0)"
    using small_buffer_ok [of 0] by simp_all
  have f1: "unat (size_f (small_buffer 0)) * 2 ^ 1 \<le> unat (SIZE_MAX div 2)"
    by (simp add: small_buffer_def SIZE_MAX_def)
  have f2: "unat (used_f (small_buffer 0)) + length (concat (map snd [(granting, replicate 5000 (65::byte))]))
      \<le> unat (size_f (small_buffer 0)) * 2 ^ 1"
    by (simp add: small_buffer_def)
  from growth_is_transparent [OF lx ok ib f1 f2]
  obtain rs f' k where r: "put_all linux_cfg [(granting, replicate 5000 65)] (small_buffer 0) =
        Some (Returns (rs, f'))"
    and rs: "map sint rs = map (\<lambda>w. int (length (snd w))) [(granting, replicate 5000 (65::byte))]"
    and c: "content f' = content (small_buffer 0) @ concat (map snd [(granting, replicate 5000 65)])"
    and u: "unat (used_f f') = unat (used_f (small_buffer 0)) +
              length (concat (map snd [(granting, replicate 5000 (65::byte))]))"
    and k: "k \<le> 1" and s: "size_f f' = size_f (small_buffer 0) * 2 ^ k"
    and le: "unat (used_f f') \<le> unat (size_f f')"
    and z: "unat (size_f f') = unat (size_f (small_buffer 0)) * 2 ^ k"
    by blast
  from rs obtain x where x: "rs = [x]" and sx: "sint x = 5000" by (cases rs) auto
  have "sint x = sint (5000 :: cint)" using sx by simp
  then have x5: "x = 5000" by (simp only: word_eq_iff_signed [symmetric])
  from u have u5: "unat (used_f f') = 5000" by (simp add: small_buffer_def)
  have "k \<noteq> 0"
  proof
    assume "k = 0"
    with le z u5 show False by (simp add: small_buffer_def)
  qed
  with k have k1: "k = 1" by simp
  have "used_f f' = 5000" using u5 by (simp add: word_unat_eq_iff)
  moreover have "size_f f' = 8192" using s k1 by (simp add: small_buffer_def)
  moreover have "content f' = replicate 5000 65" using c by (simp add: content_def small_buffer_def)
  ultimately show ?thesis using lx ib r x x5 by (simp add: granting_def)
qed

text \<open>
  Claim C1 as stated fails in two ways on a buffer of capacity 4096 and a block of 5000
  bytes. When the system refuses the remapping the write returns \<open>-1\<close> and the buffer is as
  before. On the path that is not Linux the region is reallocated with its old size while
  the capacity is doubled, so the copy runs over the end of the region.
\<close>

theorem growth_refused_counterexample:
  "initialized (small_buffer 0) \<and>
   fbuf_putn linux_cfg refusing (small_buffer 0) (replicate 5000 65) 5000 =
     Some (Returns (- 1, small_buffer 0)) \<and>
   fbuf_putn other_cfg granting (small_buffer 0) (replicate 5000 65) 5000 = Some Fault"
proof -
  have loop: "grow_loop 0 5000 4096 = Some (Some 8192)"
    by (subst grow_loop.simps) (simp add: SIZE_MAX_def)
  have a: "fbuf_putn linux_cfg refusing (small_buffer 0) (replicate 5000 65) 5000 =
     Some (Returns (- 1, small_buffer 0))"
    by (simp add: fbuf_putn_def fbuf_grow_def small_buffer_def loop grow_realloc_def
        linux_cfg_def refusing_def)
  have b: "fbuf_putn other_cfg granting (small_buffer 0) (replicate 5000 65) 5000 = Some Fault"
    by (simp add: fbuf_putn_def fbuf_grow_def small_buffer_def loop grow_realloc_def
        other_cfg_def granting_def mem_read_def mem_write_def length_resized)
  show ?thesis using a b small_buffer_ok [of 0] by simp
qed

subsection \<open>Reset\<close>

text \<open>
  Claim C8, as the code has it. \<^verbatim>\<open>fbuf_reset\<close> sets the length to zero and leaves capacity and
  region alone, and doing it twice is doing it once. On an initialized buffer whose region is
  as long as its capacity, a \<^verbatim>\<open>fbuf_putn\<close> of a block no longer than the capacity after a reset
  returns the length of the block and leaves exactly the block as content, with the capacity
  of before the reset.
\<close>

theorem reset_then_putn:
  assumes lx: "initialized f" and bk: "backed f" and s: "length x = unat len"
    and fit: "len \<le> size_f f"
  shows "size_f (fbuf_reset f) = size_f f \<and> buf_f (fbuf_reset f) = buf_f f \<and>
         used_f (fbuf_reset f) = 0 \<and> fbuf_reset (fbuf_reset f) = fbuf_reset f \<and>
         (\<exists>f'. fbuf_putn cfg os (fbuf_reset f) x len = Some (Returns (ucast len, f')) \<and>
               used_f f' = len \<and> content f' = x \<and> size_f f' = size_f f)"
proof -
  from lx bk obtain bs where b: "buf_f f = Some bs" and nz: "size_f f \<noteq> 0"
    and lb: "length bs = unat (size_f f)"
    by (auto simp: initialized_def backed_def split: option.splits)
  let ?g = "fbuf_reset f"
  have g: "fbuf_grow cfg os ?g len = Some (Returns (0, ?g))"
    using b nz fit by (simp add: fbuf_grow_room fbuf_reset_def)
  have fit': "unat (used_f ?g) + unat len \<le> length bs"
    using fit lb by (simp add: fbuf_reset_def word_le_nat_alt)
  have b': "buf_f ?g = Some bs" using b by (simp add: fbuf_reset_def)
  from putn_write [OF g b' fit' s]
  have "fbuf_putn cfg os ?g x len =
         Some (Returns (ucast len,
           ?g\<lparr>buf_f := Some (take (unat (used_f ?g)) bs @ x @
                                drop (unat (used_f ?g) + unat len) bs),
              used_f := used_f ?g + len\<rparr>))"
    .
  then show ?thesis by (simp add: fbuf_reset_def content_def s)
qed

theorem reset_then_putn_witness:
  "initialized (small_buffer 3) \<and> backed (small_buffer 3) \<and>
   length [120, 121 :: byte] = unat (2 :: u64) \<and> (2 :: u64) \<le> size_f (small_buffer 3) \<and>
   (\<exists>f'. fbuf_putn linux_cfg granting (fbuf_reset (small_buffer 3)) [120, 121] 2 =
            Some (Returns (2, f')) \<and>
         used_f f' = 2 \<and> content f' = [120, 121] \<and> size_f f' = 4096)"
proof -
  have ib: "initialized (small_buffer 3)" "backed (small_buffer 3)"
    using small_buffer_ok [of 3] by simp_all
  have l: "length [120, 121 :: byte] = unat (2 :: u64)" by simp
  have z: "(2 :: u64) \<le> size_f (small_buffer 3)" by (simp add: small_buffer_def)
  from reset_then_putn [OF ib l z, of linux_cfg granting]
  show ?thesis using ib z by (simp add: small_buffer_def)
qed

text \<open>
  Claim C8 as stated fails for a block longer than the capacity: the write after the reset
  grows the buffer, here from 4096 to 8192.
\<close>

theorem reset_then_putn_grows_counterexample:
  "initialized (small_buffer 3) \<and> backed (small_buffer 3) \<and>
   (\<exists>f'. fbuf_putn linux_cfg granting (fbuf_reset (small_buffer 3)) (replicate 5000 65) 5000 =
            Some (Returns (5000, f')) \<and>
         size_f f' = 8192 \<and> size_f f' \<noteq> size_f (small_buffer 3))"
proof -
  have r: "fbuf_reset (small_buffer 3) = small_buffer 0"
    by (simp add: fbuf_reset_def small_buffer_def)
  have ib: "initialized (small_buffer 0)" "backed (small_buffer 0)"
    using small_buffer_ok [of 0] by simp_all
  have lx: "linux linux_cfg" "alloc_ok granting" by (simp_all add: linux_cfg_def granting_def)
  have "\<exists>f'. fbuf_putn linux_cfg granting (small_buffer 0) (replicate 5000 65) 5000 =
            Some (Returns (ucast (5000 :: u64), f')) \<and>
           used_f f' = used_f (small_buffer 0) + 5000 \<and>
           unat (used_f f') = unat (used_f (small_buffer 0)) + unat (5000 :: u64) \<and>
           content f' = content (small_buffer 0) @ replicate 5000 65 \<and>
           size_f f' = size_f (small_buffer 0) * 2 ^ 1 \<and>
           unat (size_f f') = unat (size_f (small_buffer 0)) * 2 ^ 1 \<and>
           initialized f' \<and> backed f'"
    by (rule putn_grows [OF lx ib]) (simp_all add: small_buffer_def)
  then show ?thesis using r small_buffer_ok [of 3] by (auto simp: small_buffer_def)
qed

subsection \<open>Length and capacity\<close>

lemma fbuf_grow_cases:
  assumes "fbuf_grow cfg os f n = Some (Returns (g, f1))"
  shows "(g = 0 \<and> f1 = f \<and> n \<le> size_f f - used_f f) \<or> (g = - 1 \<and> f1 = f) \<or>
         (\<exists>sz tmp. g = 0 \<and> f1 = f\<lparr>buf_f := Some tmp, size_f := sz\<rparr> \<and>
                 grow_realloc cfg os f sz = Some tmp \<and> unat (size_f f) \<le> unat sz \<and>
                 \<not> sz - used_f f < n)"
  using assms
  by (auto simp: fbuf_grow_def split: if_splits option.splits dest: grow_loop_mono)

lemma headroom_add:
  assumes "(u::u64) \<le> z" and "n \<le> z - u"
  shows "unat (u + n) = unat u + unat n \<and> u + n \<le> z"
proof -
  from assms(1) have s: "unat (z - u) = unat z - unat u" by (rule unat_sub)
  from assms have le: "unat u + unat n \<le> unat z"
    by (simp add: word_le_nat_alt s)
  then have e: "unat (u + n) = unat u + unat n" by (rule unat_add_fit)
  with le show ?thesis by (simp add: word_le_nat_alt)
qed

lemma headroom_add_less: "(u::u64) \<le> z \<Longrightarrow> n < z - u \<Longrightarrow> u + n \<le> z"
  using headroom_add [of u z n] by simp

lemma fbuf_grow_inv:
  assumes g: "fbuf_grow cfg os f n = Some (Returns (g, f1))" and inv: "used_f f \<le> size_f f"
  shows "used_f f1 = used_f f \<and> used_f f1 \<le> size_f f1 \<and>
         (g = 0 \<longrightarrow> n \<le> size_f f1 - used_f f1) \<and> (g = 0 \<or> g = - 1)"
proof -
  from fbuf_grow_cases [OF g] consider
      (room) "g = 0" "f1 = f" "n \<le> size_f f - used_f f"
    | (fail) "g = - 1" "f1 = f"
    | (grown) sz tmp where "g = 0" "f1 = f\<lparr>buf_f := Some tmp, size_f := sz\<rparr>"
        "unat (size_f f) \<le> unat sz" "\<not> sz - used_f f < n"
    by blast
  then show ?thesis
  proof cases
    case room
    then show ?thesis using inv by simp
  next
    case fail
    then show ?thesis using inv by simp
  next
    case grown
    from inv grown(3) have "used_f f \<le> sz" by (simp add: word_le_nat_alt)
    then show ?thesis using grown by (simp add: not_less)
  qed
qed

lemma seq_Returns:
  "seq m k = Some (Returns y) \<Longrightarrow> \<exists>x. m = Some (Returns x) \<and> k x = Some (Returns y)"
  by (cases "(m, k)" rule: seq.cases) simp_all

lemma putc_inv:
  assumes "fbuf_putc cfg os f c = Some (Returns (r, f'))" and inv: "used_f f \<le> size_f f"
  shows "used_f f' \<le> size_f f'"
proof -
  from seq_Returns [OF assms(1) [unfolded fbuf_putc_def]]
  obtain g f1 where g: "fbuf_grow cfg os f 1 = Some (Returns (g, f1))"
    and k: "(if g \<noteq> 0 then Some (Returns (- 1, f1))
       else
         let at = used_f f1; f2 = f1\<lparr>used_f := used_f f1 + 1\<rparr>
         in (case fbuf_at f2 at of
               Addr i \<Rightarrow>
                 (case buf_f f2 of
                    None \<Rightarrow> Some Fault
                  | Some bs \<Rightarrow>
                      (case mem_write bs i [c] of
                         None \<Rightarrow> Some Fault
                       | Some bs' \<Rightarrow> Some (Returns (1, f2\<lparr>buf_f := Some bs'\<rparr>))))
             | _ \<Rightarrow> Some Fault)) = Some (Returns (r, f'))"
    by auto
  from fbuf_grow_inv [OF g inv] have i1: "used_f f1 \<le> size_f f1"
    and h: "g = 0 \<longrightarrow> 1 \<le> size_f f1 - used_f f1" by blast+
  show ?thesis
  proof (cases "g = 0")
    case False
    with k i1 show ?thesis by simp
  next
    case True
    with h headroom_add [OF i1, of 1] have "used_f f1 + 1 \<le> size_f f1" by simp
    with k True show ?thesis
      by (auto simp: Let_def split: cptr.splits option.splits)
  qed
qed

lemma putn_inv:
  assumes "fbuf_putn cfg os f s len = Some (Returns (r, f'))" and inv: "used_f f \<le> size_f f"
  shows "used_f f' \<le> size_f f'"
proof -
  from seq_Returns [OF assms(1) [unfolded fbuf_putn_def]]
  obtain g f1 where g: "fbuf_grow cfg os f len = Some (Returns (g, f1))"
    and k: "(if g \<noteq> 0 then Some (Returns (- 1, f1))
       else
         (case mem_read s (unat len) of
            None \<Rightarrow> Some Fault
          | Some xs \<Rightarrow>
              (case buf_f f1 of
                 None \<Rightarrow> Some Fault
               | Some bs \<Rightarrow>
                   (case mem_write bs (unat (used_f f1)) xs of
                      None \<Rightarrow> Some Fault
                    | Some bs' \<Rightarrow>
                        Some (Returns (ucast len,
                                f1\<lparr>buf_f := Some bs', used_f := used_f f1 + len\<rparr>)))))) =
        Some (Returns (r, f'))"
    by auto
  from fbuf_grow_inv [OF g inv] have i1: "used_f f1 \<le> size_f f1"
    and h: "g = 0 \<longrightarrow> len \<le> size_f f1 - used_f f1" by blast+
  show ?thesis
  proof (cases "g = 0")
    case False
    with k i1 show ?thesis by simp
  next
    case True
    with h headroom_add [OF i1, of len] have "used_f f1 + len \<le> size_f f1" by simp
    with k True show ?thesis
      by (auto split: option.splits)
  qed
qed

lemma putint_inv:
  assumes "fbuf_putint cfg os f n = Some (Returns (r, f'))" and inv: "used_f f \<le> size_f f"
  shows "used_f f' \<le> size_f f'"
proof -
  from seq_Returns [OF assms(1) [unfolded fbuf_putint_def]]
  obtain g f1 where g: "fbuf_grow cfg os f 10 = Some (Returns (g, f1))"
    and k: "(if g \<noteq> 0 then Some (Returns (- 1, f1))
       else
         let avail = size_f f1 - used_f f1;
             (stored, ret) = c_snprintf (unat avail) (show_int (sint n));
             r = (scast ret :: u64)
         in (case buf_f f1 of
               None \<Rightarrow> Some Fault
             | Some bs \<Rightarrow>
                 (case mem_write bs (unat (used_f f1)) stored of
                    None \<Rightarrow> Some Fault
                  | Some bs' \<Rightarrow>
                      if r > avail
                      then (if ndebug cfg then Some (Returns (- 1, f1\<lparr>buf_f := Some bs'\<rparr>))
                            else Some Aborted)
                      else Some (Returns (ucast r,
                                   f1\<lparr>buf_f := Some bs', used_f := used_f f1 + r\<rparr>))))) =
        Some (Returns (r, f'))"
    by auto
  from fbuf_grow_inv [OF g inv] have i1: "used_f f1 \<le> size_f f1" by blast
  show ?thesis
  proof (cases "g = 0")
    case False
    with k i1 show ?thesis by simp
  next
    case True
    with k i1 show ?thesis
      by (auto simp: Let_def split_def not_less split: option.splits if_splits
          dest: headroom_add [OF i1])
  qed
qed

lemma printf_inv:
  assumes "fbuf_printf cfg os f out = Some (Returns (r, f'))" and inv: "used_f f \<le> size_f f"
  shows "used_f f' \<le> size_f f'"
proof -
  from seq_Returns [OF assms(1) [unfolded fbuf_printf_def]]
  obtain g f1 where g: "fbuf_grow cfg os f (BUFSIZ cfg) = Some (Returns (g, f1))"
    and k: "(if g <s 0 then Some (Returns (- 1, f1))
       else
         let avail = size_f f1 - used_f f1;
             (stored, r) = c_snprintf (unat avail) out
         in (case buf_f f1 of
               None \<Rightarrow> Some Fault
             | Some bs \<Rightarrow>
                 (case mem_write bs (unat (used_f f1)) stored of
                    None \<Rightarrow> Some Fault
                  | Some bs' \<Rightarrow>
                      if (scast r :: u64) \<ge> avail
                      then Some (Returns (- 1, f1\<lparr>buf_f := Some bs'\<rparr>))
                      else if \<not> ndebug cfg \<and> r <s 0 then Some Aborted
                      else Some (Returns (r,
                                   f1\<lparr>buf_f := Some bs', used_f := used_f f1 + scast r\<rparr>))))) =
        Some (Returns (r, f'))"
    by auto
  from fbuf_grow_inv [OF g inv] have i1: "used_f f1 \<le> size_f f1" by blast
  show ?thesis
  proof (cases "g <s 0")
    case True
    with k i1 show ?thesis by simp
  next
    case False
    with k i1 show ?thesis
      by (auto simp: Let_def split_def not_le split: option.splits if_splits
          intro: headroom_add_less [OF i1])
  qed
qed

lemma emit_inv:
  assumes "fbuf_emit cfg os f esc = Some (Returns (r, f'))" and inv: "used_f f \<le> size_f f"
  shows "used_f f' \<le> size_f f'"
proof (cases esc)
  case None
  with assms show ?thesis by (simp add: fbuf_emit_def)
next
  case (Some s)
  with assms(1) have "seq (fbuf_puts cfg os f s) (\<lambda>(r, f1).
            if r <s 0 then Some (Returns (- 1, f1)) else Some (Returns (0, f1))) =
          Some (Returns (r, f'))"
    by (simp add: fbuf_emit_def)
  from seq_Returns [OF this] obtain r1 where "fbuf_puts cfg os f s = Some (Returns (r1, f'))"
    by (auto split: if_splits)
  then show ?thesis using inv by (auto simp: fbuf_puts_def dest: putn_inv)
qed

lemma write_inv:
  "fbuf_write cfg os f w = Some (Returns (r, f')) \<Longrightarrow> used_f f \<le> size_f f \<Longrightarrow>
   used_f f' \<le> size_f f'"
  by (cases w)
    (auto simp: fbuf_puts_def dest: putc_inv putn_inv putint_inv printf_inv emit_inv)

lemma initgrow_inv:
  "fbuf_initgrow cfg os hf (f\<lparr>used_f := 0, size_f := 0, buf_f := None\<rparr>) small =
     Returns (r, hf', f') \<Longrightarrow> used_f f' \<le> size_f f'"
  by (auto simp: fbuf_initgrow_def Let_def split: if_splits option.splits)

lemma keep_Returns:
  "keep st m = Some (Returns st') \<Longrightarrow> \<exists>r f'. m = Some (Returns (r, f')) \<and> st' = st\<lparr>the_fbuf := f'\<rparr>"
  unfolding keep_def by (drule seq_Returns) auto

lemma keep_init_Returns:
  "keep_init m = Some (Returns st') \<Longrightarrow>
   \<exists>r hf f'. m = Returns (r, hf, f') \<and> st' = \<lparr>hugepages_failed = hf, the_fbuf = f'\<rparr>"
  unfolding keep_init_def by (drule seq_Returns) auto

lemma step_inv:
  assumes "step cfg os c st = Some (Returns st')"
    and "used_f (the_fbuf st) \<le> size_f (the_fbuf st) \<or> c = Init \<or> c = Init_small"
  shows "used_f (the_fbuf st') \<le> size_f (the_fbuf st')"
proof (cases c)
  case Init_small
  with assms(1) show ?thesis
    by (auto simp: fbuf_init_small_def dest!: keep_init_Returns dest: initgrow_inv)
next
  case Init
  with assms(1) show ?thesis
    by (auto simp: fbuf_init_def dest!: keep_init_Returns dest: initgrow_inv)
next
  case (Grow n)
  with assms show ?thesis
    by (auto dest!: keep_Returns dest: fbuf_grow_inv)
next
  case (Write w)
  with assms show ?thesis
    by (auto dest!: keep_Returns dest: write_inv)
next
  case Reset
  with assms(1) show ?thesis by (auto simp: fbuf_reset_def)
next
  case Free
  with assms(1) show ?thesis by (auto simp: fbuf_free_def split: option.splits)
next
  case (Finalize fp flushfp)
  with assms(1) show ?thesis
    by (auto simp: fbuf_finalize_def fbuf_free_def Let_def split_def
        dest!: keep_Returns split: outcome.splits option.splits if_splits)
qed

lemma run_inv:
  "run cfg cs st = Some (Returns st') \<Longrightarrow> used_f (the_fbuf st) \<le> size_f (the_fbuf st) \<Longrightarrow>
   used_f (the_fbuf st') \<le> size_f (the_fbuf st')"
proof (induction cs arbitrary: st)
  case Nil
  then show ?case by simp
next
  case (Cons w cs)
  obtain os c where w: "w = (os, c)" by (cases w)
  from Cons.prems(1) w have "seq (step cfg os c st) (run cfg cs) = Some (Returns st')" by simp
  from seq_Returns [OF this] obtain st1 where s: "step cfg os c st = Some (Returns st1)"
    and r: "run cfg cs st1 = Some (Returns st')" by blast
  from step_inv [OF s] Cons.prems(2) have "used_f (the_fbuf st1) \<le> size_f (the_fbuf st1)" by blast
  from Cons.IH [OF r this] show ?case .
qed

text \<open>
  Claim C6. \<open>length \<le> capacity\<close> holds in every state a caller can observe: it holds after
  \<^verbatim>\<open>fbuf_init\<close> and \<^verbatim>\<open>fbuf_init_small\<close>, whatever the structure held before and whether or not the
  allocation succeeded, and every call that returns (growth, each of the writes, reset,
  release, finalisation) preserves it, on both platforms and under every answer of the
  system.
\<close>

theorem length_le_capacity:
  assumes "run cfg cs st = Some (Returns st')"
    and "used_f (the_fbuf st) \<le> size_f (the_fbuf st) \<or>
         (\<exists>os c cs'. cs = (os, c) # cs' \<and> (c = Init \<or> c = Init_small))"
  shows "used_f (the_fbuf st') \<le> size_f (the_fbuf st')"
  using assms(2)
proof
  assume "used_f (the_fbuf st) \<le> size_f (the_fbuf st)"
  with assms(1) show ?thesis by (rule run_inv)
next
  assume "\<exists>os c cs'. cs = (os, c) # cs' \<and> (c = Init \<or> c = Init_small)"
  then obtain os c cs' where cs: "cs = (os, c) # cs'" and c: "c = Init \<or> c = Init_small" by blast
  from assms(1) cs have "seq (step cfg os c st) (run cfg cs') = Some (Returns st')" by simp
  from seq_Returns [OF this] obtain st1 where s: "step cfg os c st = Some (Returns st1)"
    and r: "run cfg cs' st1 = Some (Returns st')" by blast
  from step_inv [OF s] c have "used_f (the_fbuf st1) \<le> size_f (the_fbuf st1)" by blast
  from run_inv [OF r this] show ?thesis .
qed

lemma session_runs: "\<exists>st'. run linux_cfg session garbage = Some (Returns st')"
  by (simp add: session_def garbage_def linux_cfg_def granting_def fbuf_init_small_def
      fbuf_initgrow_def keep_init_def keep_def Let_def fbuf_putint_def fbuf_grow_def
      c_snprintf_def show_int_def mem_write_def length_resized fbuf_putn_def mem_read_def
      grow_loop.simps [of _ _ 4096] SIZE_MAX_def grow_realloc_def fbuf_reset_def fbuf_putc_def
      fbuf_at_def)

theorem length_le_capacity_witness:
  "\<exists>st'. run linux_cfg session garbage = Some (Returns st') \<and>
         \<not> used_f (the_fbuf garbage) \<le> size_f (the_fbuf garbage) \<and>
         used_f (the_fbuf st') \<le> size_f (the_fbuf st')"
proof -
  from session_runs obtain st' where r: "run linux_cfg session garbage = Some (Returns st')" ..
  have "used_f (the_fbuf garbage) \<le> size_f (the_fbuf garbage) \<or>
         (\<exists>os c cs'. session = (os, c) # cs' \<and> (c = Init \<or> c = Init_small))"
    by (simp add: session_def)
  from length_le_capacity [OF r this] have "used_f (the_fbuf st') \<le> size_f (the_fbuf st')" .
  moreover have "\<not> used_f (the_fbuf garbage) \<le> size_f (the_fbuf garbage)"
    by (simp add: garbage_def)
  ultimately show ?thesis using r by blast
qed

subsection \<open>Writes that fail\<close>

lemma ucast_not_negative: "unat (len::u64) < 2 ^ 31 \<Longrightarrow> \<not> (ucast len :: cint) <s 0"
  using sint_of_nat_small [of "unat len"] by (simp add: word_sless_alt)

lemma ucast_scast_cint: "(ucast (scast (r::cint) :: u64) :: cint) = r"
  by (rule bit_word_eqI) (auto simp: bit_simps)

lemma dec_digits_length: "0 < k \<Longrightarrow> n < 10 ^ k \<Longrightarrow> length (dec_digits n) \<le> k"
proof (induction n arbitrary: k rule: dec_digits.induct)
  case (1 n)
  show ?case
  proof (cases "n < 10")
    case True
    then show ?thesis using "1.prems" by (subst dec_digits.simps) simp
  next
    case False
    obtain k' where k: "k = Suc k'" using "1.prems"(1) by (cases k) auto
    have "k' \<noteq> 0" using False "1.prems"(2) k by (cases k') auto
    then have pos: "0 < k'" by simp
    have "n div 10 < 10 ^ k'" using "1.prems"(2) k by simp
    from "1.IH" [OF False pos this] show ?thesis
      using False k by (subst dec_digits.simps) simp
  qed
qed

lemma show_int_length: "length (show_int (sint (n::cint))) \<le> 11"
proof -
  have lo: "- (2 ^ 31) \<le> sint n" using sint_ge [of n] by simp
  have hi: "sint n < 2 ^ 31" using sint_lt [of n] by simp
  show ?thesis
  proof (cases "sint n < 0")
    case True
    have "length (dec_digits (- sint n)) \<le> 10"
      by (rule dec_digits_length) (use lo in simp_all)
    then show ?thesis using True by (simp add: show_int_def)
  next
    case False
    have "length (dec_digits (sint n)) \<le> 10"
      by (rule dec_digits_length) (use hi in simp_all)
    then show ?thesis using False by (simp add: show_int_def)
  qed
qed

lemma snprintf_ret_cases:
  "snd (c_snprintf avail out) = - 1 \<or>
   (snd (c_snprintf avail out) = word_of_nat (length out) \<and> length out \<le> 2147483647)"
  by (simp add: c_snprintf_def)

lemma snprintf_int_ret:
  "snd (c_snprintf avail (show_int (sint (n::cint)))) = word_of_nat (length (show_int (sint n)))"
  using show_int_length [of n] by (simp add: c_snprintf_def)

lemma grow_initialized:
  assumes ini: "initialized f" and g: "fbuf_grow cfg os f n = Some (Returns (g, f1))"
  shows "initialized f1 \<and> used_f f1 = used_f f \<and> content f1 = content f \<and>
         (g \<noteq> 0 \<longrightarrow> f1 = f)"
proof -
  from ini obtain bs where b: "buf_f f = Some bs" and nz: "size_f f \<noteq> 0"
    and ub: "unat (used_f f) \<le> length bs" and lb: "length bs \<le> unat (size_f f)"
    by (auto simp: initialized_def split: option.splits)
  from fbuf_grow_cases [OF g] consider
      (same) "f1 = f"
    | (grown) sz tmp where "g = 0" "f1 = f\<lparr>buf_f := Some tmp, size_f := sz\<rparr>"
        "grow_realloc cfg os f sz = Some tmp" "unat (size_f f) \<le> unat sz"
    by blast
  then show ?thesis
  proof cases
    case same
    then show ?thesis using ini by simp
  next
    case grown
    have tmp: "tmp = bs @ map (fresh os) [length bs ..< (if linux cfg then unat sz else unat (size_f f))]"
      using grown(3,4) b lb
      by (auto simp: grow_realloc_def resized_def split: if_splits)
    have nz': "sz \<noteq> 0"
    proof
      assume "sz = 0"
      with grown(4) have "unat (size_f f) = 0" by simp
      with nz show False by (simp add: unat_eq_0)
    qed
    have len: "length tmp \<le> unat sz" "length bs \<le> length tmp"
      using grown(4) lb by (auto simp: tmp)
    have "take (unat (used_f f)) tmp = take (unat (used_f f)) bs"
      using ub by (simp add: tmp)
    then show ?thesis
      using grown(1,2) b ub len nz'
      by (simp add: initialized_def content_def)
  qed
qed

lemma content_after_write:
  assumes "buf_f f1 = Some bs" and "mem_write bs (unat (used_f f1)) xs = Some bs'"
  shows "content (f1\<lparr>buf_f := Some bs'\<rparr>) = content f1"
  using assms by (auto simp: content_def mem_write_def split: if_splits)

lemma putc_fail:
  assumes "fbuf_putc cfg os f c = Some (Returns (r, f'))" and neg: "r <s 0"
  shows "f' = f"
proof -
  from seq_Returns [OF assms(1) [unfolded fbuf_putc_def]]
  obtain g f1 where g: "fbuf_grow cfg os f 1 = Some (Returns (g, f1))"
    and k: "(if g \<noteq> 0 then Some (Returns (- 1, f1))
       else
         let at = used_f f1; f2 = f1\<lparr>used_f := used_f f1 + 1\<rparr>
         in (case fbuf_at f2 at of
               Addr i \<Rightarrow>
                 (case buf_f f2 of
                    None \<Rightarrow> Some Fault
                  | Some bs \<Rightarrow>
                      (case mem_write bs i [c] of
                         None \<Rightarrow> Some Fault
                       | Some bs' \<Rightarrow> Some (Returns (1, f2\<lparr>buf_f := Some bs'\<rparr>))))
             | _ \<Rightarrow> Some Fault)) = Some (Returns (r, f'))"
    by auto
  show ?thesis
  proof (cases "g = 0")
    case False
    with fbuf_grow_cases [OF g] have "f1 = f" by auto
    with k False show ?thesis by simp
  next
    case True
    with k have "r = 1" by (auto simp: Let_def split: cptr.splits option.splits)
    with neg show ?thesis by (simp add: word_sless_alt)
  qed
qed

lemma putn_fail:
  assumes "fbuf_putn cfg os f s len = Some (Returns (r, f'))" and neg: "r <s 0"
    and short: "unat len < 2 ^ 31"
  shows "f' = f"
proof -
  from seq_Returns [OF assms(1) [unfolded fbuf_putn_def]]
  obtain g f1 where g: "fbuf_grow cfg os f len = Some (Returns (g, f1))"
    and k: "(if g \<noteq> 0 then Some (Returns (- 1, f1))
       else
         (case mem_read s (unat len) of
            None \<Rightarrow> Some Fault
          | Some xs \<Rightarrow>
              (case buf_f f1 of
                 None \<Rightarrow> Some Fault
               | Some bs \<Rightarrow>
                   (case mem_write bs (unat (used_f f1)) xs of
                      None \<Rightarrow> Some Fault
                    | Some bs' \<Rightarrow>
                        Some (Returns (ucast len,
                                f1\<lparr>buf_f := Some bs', used_f := used_f f1 + len\<rparr>)))))) =
        Some (Returns (r, f'))"
    by auto
  show ?thesis
  proof (cases "g = 0")
    case False
    with fbuf_grow_cases [OF g] have "f1 = f" by auto
    with k False show ?thesis by simp
  next
    case True
    with k have "r = ucast len" by (auto split: option.splits)
    with neg ucast_not_negative [OF short] show ?thesis by simp
  qed
qed

lemma puts_word_len:
  "n < 2147483648 \<Longrightarrow> unat (word_of_nat n :: u64) < 2147483648"
  by (simp add: unat_of_nat_u64)

lemma emit_fail:
  assumes "fbuf_emit cfg os f esc = Some (Returns (r, f'))" and neg: "r <s 0"
    and short: "wlen (Emit esc) < 2 ^ 31"
  shows "f' = f"
proof (cases esc)
  case None
  with assms show ?thesis by (simp add: fbuf_emit_def)
next
  case (Some s)
  with assms(1) have "seq (fbuf_puts cfg os f s) (\<lambda>(r, f1).
            if r <s 0 then Some (Returns (- 1, f1)) else Some (Returns (0, f1))) =
          Some (Returns (r, f'))"
    by (simp add: fbuf_emit_def)
  from seq_Returns [OF this] obtain r1 where p: "fbuf_puts cfg os f s = Some (Returns (r1, f'))"
    and r: "r = (if r1 <s 0 then - 1 else 0)"
    by (auto split: if_splits)
  from r neg have "r1 <s 0" by (auto split: if_splits)
  moreover have "unat (word_of_nat (strlen s) :: u64) < 2 ^ 31"
    using short Some by (simp add: puts_word_len)
  ultimately show ?thesis using p by (auto simp: fbuf_puts_def dest: putn_fail)
qed

lemma putint_fail:
  assumes ini: "initialized f"
    and "fbuf_putint cfg os f n = Some (Returns (r, f'))" and neg: "r <s 0"
  shows "used_f f' = used_f f \<and> content f' = content f"
proof -
  from seq_Returns [OF assms(2) [unfolded fbuf_putint_def]]
  obtain g f1 where g: "fbuf_grow cfg os f 10 = Some (Returns (g, f1))"
    and k: "(if g \<noteq> 0 then Some (Returns (- 1, f1))
       else
         let avail = size_f f1 - used_f f1;
             (stored, ret) = c_snprintf (unat avail) (show_int (sint n));
             r = (scast ret :: u64)
         in (case buf_f f1 of
               None \<Rightarrow> Some Fault
             | Some bs \<Rightarrow>
                 (case mem_write bs (unat (used_f f1)) stored of
                    None \<Rightarrow> Some Fault
                  | Some bs' \<Rightarrow>
                      if r > avail
                      then (if ndebug cfg then Some (Returns (- 1, f1\<lparr>buf_f := Some bs'\<rparr>))
                            else Some Aborted)
                      else Some (Returns (ucast r,
                                   f1\<lparr>buf_f := Some bs', used_f := used_f f1 + r\<rparr>))))) =
        Some (Returns (r, f'))"
    by auto
  from grow_initialized [OF ini g] have u1: "used_f f1 = used_f f"
    and c1: "content f1 = content f" and same: "g \<noteq> 0 \<longrightarrow> f1 = f" by blast+
  show ?thesis
  proof (cases "g = 0")
    case False
    with k same show ?thesis by simp
  next
    case True
    let ?ret = "snd (c_snprintf (unat (size_f f1 - used_f f1)) (show_int (sint n)))"
    have ret: "?ret = word_of_nat (length (show_int (sint n)))" by (rule snprintf_int_ret)
    have "sint ?ret = int (length (show_int (sint n)))"
      unfolding ret by (rule sint_of_nat_small) (use show_int_length [of n] in simp)
    then have nn: "\<not> (ucast (scast ?ret :: u64) :: cint) <s 0"
      by (simp add: ucast_scast_cint word_sless_alt)
    from k True obtain bs bs' where b: "buf_f f1 = Some bs"
      and w: "mem_write bs (unat (used_f f1))
                (fst (c_snprintf (unat (size_f f1 - used_f f1)) (show_int (sint n)))) = Some bs'"
      and res: "(r = - 1 \<and> f' = f1\<lparr>buf_f := Some bs'\<rparr>) \<or> r = ucast (scast ?ret :: u64)"
      by (auto simp: Let_def split_def split: option.splits if_splits)
    from res neg nn have f': "f' = f1\<lparr>buf_f := Some bs'\<rparr>" by auto
    from content_after_write [OF b w] show ?thesis using f' u1 c1 by simp
  qed
qed

lemma printf_fail:
  assumes ini: "initialized f"
    and "fbuf_printf cfg os f out = Some (Returns (r, f'))" and neg: "r <s 0"
  shows "used_f f' = used_f f \<and> content f' = content f"
proof -
  from seq_Returns [OF assms(2) [unfolded fbuf_printf_def]]
  obtain g f1 where g: "fbuf_grow cfg os f (BUFSIZ cfg) = Some (Returns (g, f1))"
    and k: "(if g <s 0 then Some (Returns (- 1, f1))
       else
         let avail = size_f f1 - used_f f1;
             (stored, r) = c_snprintf (unat avail) out
         in (case buf_f f1 of
               None \<Rightarrow> Some Fault
             | Some bs \<Rightarrow>
                 (case mem_write bs (unat (used_f f1)) stored of
                    None \<Rightarrow> Some Fault
                  | Some bs' \<Rightarrow>
                      if (scast r :: u64) \<ge> avail
                      then Some (Returns (- 1, f1\<lparr>buf_f := Some bs'\<rparr>))
                      else if \<not> ndebug cfg \<and> r <s 0 then Some Aborted
                      else Some (Returns (r,
                                   f1\<lparr>buf_f := Some bs', used_f := used_f f1 + scast r\<rparr>))))) =
        Some (Returns (r, f'))"
    by auto
  from grow_initialized [OF ini g] have u1: "used_f f1 = used_f f"
    and c1: "content f1 = content f" and same: "g \<noteq> 0 \<longrightarrow> f1 = f" by blast+
  show ?thesis
  proof (cases "g <s 0")
    case True
    then have "g \<noteq> 0" by auto
    with k True same show ?thesis by simp
  next
    case False
    let ?avail = "size_f f1 - used_f f1"
    let ?ret = "snd (c_snprintf (unat ?avail) out)"
    from k False obtain bs bs' where b: "buf_f f1 = Some bs"
      and w: "mem_write bs (unat (used_f f1)) (fst (c_snprintf (unat ?avail) out)) = Some bs'"
      and res: "(r = - 1 \<and> f' = f1\<lparr>buf_f := Some bs'\<rparr>) \<or>
                (r = ?ret \<and> \<not> ?avail \<le> (scast ?ret :: u64))"
      by (auto simp: Let_def split_def split: option.splits if_splits)
    have "\<not> (r = ?ret \<and> \<not> ?avail \<le> (scast ?ret :: u64))"
    proof
      assume a: "r = ?ret \<and> \<not> ?avail \<le> (scast ?ret :: u64)"
      from snprintf_ret_cases [of "unat ?avail" out] show False
      proof
        assume "?ret = - 1"
        then have "(scast ?ret :: u64) = - 1" by simp
        with a show False by simp
      next
        assume "?ret = word_of_nat (length out) \<and> length out \<le> 2147483647"
        then have "sint ?ret = int (length out)" by (simp add: sint_of_nat_small)
        with a neg show False by (simp add: word_sless_alt)
      qed
    qed
    with res have f': "f' = f1\<lparr>buf_f := Some bs'\<rparr>" by blast
    from content_after_write [OF b w] show ?thesis using f' u1 c1 by simp
  qed
qed

lemma printf_overflow_example:
  "\<exists>f' bs'. fbuf_printf linux_cfg granting (small_buffer 4000) (replicate 5000 120) =
             Some (Returns (- 1, f')) \<and>
           size_f f' = 8192 \<and> buf_f f' = Some bs' \<and> bs' ! 4000 = 120"
proof -
  have loop: "grow_loop 4000 1024 4096 = Some (Some 8192)"
    by (subst grow_loop.simps) (simp add: SIZE_MAX_def)
  have g: "fbuf_grow linux_cfg granting (small_buffer 4000) 1024 =
      Some (Returns (0, \<lparr>size_f = 8192, used_f = 4000,
              buf_f = Some (resized (\<lambda>i. 0) (replicate 4096 0) 8192)\<rparr>))"
    by (simp add: fbuf_grow_def small_buffer_def loop grow_realloc_def linux_cfg_def granting_def)
  have cfg: "BUFSIZ linux_cfg = 1024" "\<not> ndebug linux_cfg" by (simp_all add: linux_cfg_def)
  show ?thesis
    by (simp add: fbuf_printf_def cfg g c_snprintf_def mem_write_def length_resized nth_append)
qed

text \<open>
  A block of \<open>2 ^ 32 - 1\<close> bytes: \<^verbatim>\<open>fbuf_putn\<close> appends it and returns its length as an \<^verbatim>\<open>int\<close>,
  which is \<open>-1\<close>.
\<close>

lemma putn_long_block_returns_minus_one:
  assumes "initialized f" and "backed f" and "length s = 4294967295"
    and "4294967295 \<le> size_f f - used_f f"
  shows "\<exists>f'. fbuf_putn cfg os f s 4294967295 = Some (Returns (- 1, f')) \<and>
              used_f f' = used_f f + 4294967295"
proof -
  from assms(1,2) obtain bs where b: "buf_f f = Some bs" and nz: "size_f f \<noteq> 0"
    and lb: "length bs = unat (size_f f)" and ub: "unat (used_f f) \<le> length bs"
    by (auto simp: initialized_def backed_def split: option.splits)
  have g: "fbuf_grow cfg os f 4294967295 = Some (Returns (0, f))"
    using b nz assms(4) by (simp add: fbuf_grow_room)
  have u: "used_f f \<le> size_f f" using ub lb by (simp add: word_le_nat_alt)
  from headroom_add [OF u assms(4)] have "unat (used_f f) + unat (4294967295 :: u64) \<le> length bs"
    using lb by (simp add: word_le_nat_alt)
  from putn_write [OF g b this] assms(3) show ?thesis by simp
qed

text \<open>
  Claim C4, as the code has it. On an initialized buffer, when one of the six writes
  returns a negative value and was asked to append fewer than \<open>2 ^ 31\<close> bytes from its block
  or string, the length and the bytes at offsets \<open>[0, length)\<close> are as before the call. The
  capacity, the region and the bytes from offset \<open>length\<close> on may have changed.
\<close>

theorem failed_write_keeps_content:
  assumes "initialized f" and "fbuf_write cfg os f w = Some (Returns (r, f'))"
    and "r <s 0" and "wlen w < 2 ^ 31"
  shows "used_f f' = used_f f \<and> content f' = content f"
proof (cases w)
  case (Putc c)
  with assms show ?thesis by (auto dest: putc_fail)
next
  case (Putn s len)
  with assms show ?thesis by (auto dest: putn_fail)
next
  case (Puts s)
  with assms have "fbuf_putn cfg os f s (word_of_nat (strlen s)) = Some (Returns (r, f'))"
    and "unat (word_of_nat (strlen s) :: u64) < 2 ^ 31"
    by (simp_all add: fbuf_puts_def puts_word_len)
  from putn_fail [OF this(1) assms(3) this(2)] show ?thesis by simp
next
  case (Putint n)
  with assms show ?thesis by (auto dest: putint_fail)
next
  case (Printf out)
  with assms show ?thesis by (auto dest: printf_fail)
next
  case (Emit esc)
  with assms show ?thesis by (auto dest: emit_fail)
qed

theorem failed_write_keeps_content_witness:
  "initialized (small_buffer 4000) \<and>
   (\<exists>f'. fbuf_write linux_cfg granting (small_buffer 4000) (Printf (replicate 5000 120)) =
            Some (Returns (- 1, f')) \<and>
         (- 1 :: cint) <s 0 \<and> wlen (Printf (replicate 5000 120)) < 2 ^ 31 \<and>
         used_f f' = 4000 \<and> content f' = replicate 4000 0)"
proof -
  have ini: "initialized (small_buffer 4000)" using small_buffer_ok [of 4000] by simp
  from printf_overflow_example obtain f' where
    r: "fbuf_write linux_cfg granting (small_buffer 4000) (Printf (replicate 5000 120)) =
            Some (Returns (- 1, f'))"
    by auto
  have neg: "(- 1 :: cint) <s 0" by (simp add: word_sless_alt)
  have short: "wlen (Printf (replicate 5000 120)) < 2 ^ 31" by simp
  from failed_write_keeps_content [OF ini r neg short]
  have "used_f f' = 4000 \<and> content f' = replicate 4000 0"
    by (simp add: small_buffer_def content_def)
  then show ?thesis using ini r neg short by blast
qed

text \<open>
  Claim C4 as stated fails for a formatted write that does not fit: with 96 bytes of
  headroom, \<^verbatim>\<open>fbuf_printf\<close> of 5000 bytes first doubles the capacity, then stores the part of
  the output that fits from offset \<open>length\<close> on, and then returns \<open>-1\<close>.
\<close>

theorem failed_printf_changes_buffer_counterexample:
  "initialized (small_buffer 4000) \<and>
   (\<exists>f' bs'. fbuf_printf linux_cfg granting (small_buffer 4000) (replicate 5000 120) =
             Some (Returns (- 1, f')) \<and>
           size_f f' = 8192 \<and> size_f (small_buffer 4000) = 4096 \<and>
           buf_f f' = Some bs' \<and> bs' ! 4000 = 120 \<and>
           buf_f (small_buffer 4000) = Some (replicate 4096 0) \<and>
           replicate 4096 (0::byte) ! 4000 = 0)"
  using printf_overflow_example small_buffer_ok [of 4000]
  by (simp add: small_buffer_def)

subsection \<open>The bound on the capacity\<close>

text \<open>
  Claim C3: the capacity never exceeds \<^verbatim>\<open>SIZE_MAX / 2\<close>, which is also what the comment above
  \<^verbatim>\<open>fbuf_grow\<close> says. The loop tests \<^verbatim>\<open>SIZE_MAX / 2 >= size\<close> before it doubles \<^verbatim>\<open>size\<close>, so the
  capacity it sets can be twice that, and the claim fails: from a buffer of 4096 bytes, a
  request for \<open>2 ^ 62 + 1\<close> more bytes leaves a capacity of \<open>2 ^ 63\<close>, on Linux when the system
  grants a mapping of that size, and elsewhere as soon as \<^verbatim>\<open>realloc\<close> succeeds, since it is
  asked for the 4096 bytes the region already has.
\<close>

theorem grow_beyond_half_of_size_max:
  "initialized (small_buffer 0) \<and> SIZE_MAX div 2 < (0x8000000000000000 :: u64) \<and>
   (\<exists>f'. fbuf_grow linux_cfg granting (small_buffer 0) 0x4000000000000001 =
            Some (Returns (0, f')) \<and> size_f f' = 0x8000000000000000) \<and>
   (\<exists>f'. fbuf_grow other_cfg granting (small_buffer 0) 0x4000000000000001 =
            Some (Returns (0, f')) \<and> size_f f' = 0x8000000000000000 \<and>
          buf_f f' = Some (replicate 4096 0))"
proof -
  have least: "\<forall>j. 1 \<le> j \<and> j \<le> 50 \<longrightarrow>
      unat (4096 :: u64) * 2 ^ j < unat (0 :: u64) + unat (0x4000000000000001 :: u64)"
  proof (intro allI impI)
    fix j :: nat assume "1 \<le> j \<and> j \<le> 50"
    then have "(2::nat) ^ j \<le> 2 ^ 50" by (intro power_increasing) simp_all
    then have "4096 * (2::nat) ^ j \<le> 4096 * 2 ^ 50" by simp
    then show "unat (4096 :: u64) * 2 ^ j < unat (0 :: u64) + unat (0x4000000000000001 :: u64)"
      by simp
  qed
  have "grow_loop 0 0x4000000000000001 4096 = Some (Some (4096 * 2 ^ Suc 50))"
    by (rule grow_loop_found [OF _ _ _ _ least]) simp_all
  then have loop: "grow_loop 0 0x4000000000000001 4096 = Some (Some 0x8000000000000000)"
    by simp
  have a: "\<exists>f'. fbuf_grow linux_cfg granting (small_buffer 0) 0x4000000000000001 =
            Some (Returns (0, f')) \<and> size_f f' = 0x8000000000000000"
    by (simp add: fbuf_grow_def small_buffer_def loop grow_realloc_def linux_cfg_def granting_def)
  have r: "resized (\<lambda>i. 0) (replicate 4096 (0::byte)) 4096 = replicate 4096 0"
    by (simp add: resized_def)
  have b: "\<exists>f'. fbuf_grow other_cfg granting (small_buffer 0) 0x4000000000000001 =
            Some (Returns (0, f')) \<and> size_f f' = 0x8000000000000000 \<and>
          buf_f f' = Some (replicate 4096 0)"
    by (simp add: fbuf_grow_def small_buffer_def loop grow_realloc_def other_cfg_def
        granting_def r)
  have "SIZE_MAX div 2 < (0x8000000000000000 :: u64)" by (simp add: SIZE_MAX_def)
  then show ?thesis using a b small_buffer_ok [of 0] by simp
qed

subsection \<open>Decimal integers\<close>

text \<open>
  When at least twelve bytes are free (the longest rendering, its sign and the terminating
  zero of \<^verbatim>\<open>snprintf\<close>), \<^verbatim>\<open>fbuf_putint\<close> appends the decimal rendering and returns its length.
\<close>

lemma scast_small: "n \<le> 2147483647 \<Longrightarrow> (scast (word_of_nat n :: cint) :: u64) = word_of_nat n"
proof -
  assume "n \<le> 2147483647"
  then have "sint (word_of_nat n :: cint) = int n" by (rule sint_of_nat_small)
  then show ?thesis by (simp add: scast_eq)
qed

lemma putint_with_headroom:
  assumes ini: "initialized f" and bk: "backed f" and room: "12 \<le> size_f f - used_f f"
  shows "\<exists>f'. fbuf_putint cfg os f n =
             Some (Returns (word_of_nat (length (show_int (sint n))), f')) \<and>
           unat (used_f f') = unat (used_f f) + length (show_int (sint n)) \<and>
           content f' = content f @ show_int (sint n) \<and> size_f f' = size_f f"
proof -
  from ini bk obtain bs where b: "buf_f f = Some bs" and nz: "size_f f \<noteq> 0"
    and lb: "length bs = unat (size_f f)" and ub: "unat (used_f f) \<le> length bs"
    by (auto simp: initialized_def backed_def split: option.splits)
  let ?out = "show_int (sint n)" and ?avail = "size_f f - used_f f"
  let ?L = "length ?out"
  have L: "?L \<le> 11" by (rule show_int_length)
  have u: "used_f f \<le> size_f f" using ub lb by (simp add: word_le_nat_alt)
  have av: "unat ?avail = unat (size_f f) - unat (used_f f)" using u by (rule unat_sub)
  have a12: "12 \<le> unat ?avail" using room by (simp add: word_le_nat_alt)
  have "(10::u64) \<le> 12" by simp
  with room have "10 \<le> ?avail" by (rule order_trans [rotated])
  then have g: "fbuf_grow cfg os f 10 = Some (Returns (0, f))"
    using b nz by (simp add: fbuf_grow_room)
  have st: "c_snprintf (unat ?avail) ?out = (?out @ [0], word_of_nat ?L)"
    using L a12 by (simp add: c_snprintf_def)
  have r: "(scast (word_of_nat ?L :: cint) :: u64) = word_of_nat ?L"
    by (rule scast_small) (use L in simp)
  have ur: "unat (word_of_nat ?L :: u64) = ?L" by (rule unat_of_nat_u64) (use L in simp)
  have le: "\<not> ?avail < (word_of_nat ?L :: u64)"
    using a12 L by (simp add: word_less_nat_alt ur)
  have fit: "unat (used_f f) + length (?out @ [0]) \<le> length bs"
    using a12 L av lb by simp
  have "unat (used_f f) + unat (word_of_nat ?L :: u64) \<le> unat (size_f f)"
    using a12 L av ur by simp
  from unat_add_fit [OF this] have ua: "unat (used_f f + word_of_nat ?L) = unat (used_f f) + ?L"
    by (simp add: ur)
  have uc: "(ucast (word_of_nat ?L :: u64) :: cint) = word_of_nat ?L"
    by (metis ucast_scast_cint r)
  show ?thesis
    using fit le ub
    by (simp add: fbuf_putint_def g st r b mem_write_def content_def ua uc Let_def)
qed

lemma putint_12345:
  "\<exists>f'. fbuf_putint linux_cfg granting (small_buffer 0) 12345 = Some (Returns (5, f')) \<and>
        used_f f' = 5 \<and> content f' = [49, 50, 51, 52, 53]"
proof -
  have g: "fbuf_grow linux_cfg granting (small_buffer 0) 10 = Some (Returns (0, small_buffer 0))"
    by (rule fbuf_grow_room) (simp_all add: small_buffer_def)
  have d: "show_int 12345 = [49, 50, 51, 52, 53]" by (simp add: show_int_def)
  show ?thesis
    by (simp add: fbuf_putint_def g [unfolded small_buffer_def] d c_snprintf_def
        small_buffer_def mem_write_def content_def Let_def)
qed

text \<open>
  Claim C2: \<^verbatim>\<open>fbuf_putint\<close> reserves room for the longest decimal rendering of an \<^verbatim>\<open>int\<close>, sign
  included, so that on every initialized buffer it succeeds and appends exactly the rendering.
  The code reserves ten bytes, and the claim fails where exactly ten are free: a number of
  ten digits is stored without its last digit, a zero byte in its place, while the call
  returns 10 and the length advances by 10; the least \<^verbatim>\<open>int\<close> needs eleven characters and the
  call stops at its own assertion.
\<close>

theorem putint_headroom_too_small:
  "initialized (small_buffer 4086) \<and>
   show_int (sint (1234567890 :: cint)) = [49, 50, 51, 52, 53, 54, 55, 56, 57, 48] \<and>
   (\<exists>f'. fbuf_putint linux_cfg granting (small_buffer 4086) 1234567890 = Some (Returns (10, f')) \<and>
         used_f f' = 4096 \<and>
         drop 4086 (content f') = [49, 50, 51, 52, 53, 54, 55, 56, 57, 0]) \<and>
   fbuf_putint linux_cfg granting (small_buffer 4086) (- 2147483648) = Some Aborted"
proof -
  have g: "fbuf_grow linux_cfg granting (small_buffer 4086) 10 =
      Some (Returns (0, small_buffer 4086))"
    by (rule fbuf_grow_room) (simp_all add: small_buffer_def)
  have s1: "show_int (sint (1234567890 :: cint)) = [49, 50, 51, 52, 53, 54, 55, 56, 57, 48]"
    by (simp add: show_int_def)
  have d1: "show_int 1234567890 = [49, 50, 51, 52, 53, 54, 55, 56, 57, 48]"
    by (simp add: show_int_def)
  have d2: "show_int (- 2147483648) = [45, 50, 49, 52, 55, 52, 56, 51, 54, 52, 56]"
    by (simp add: show_int_def)
  have cfg: "\<not> ndebug linux_cfg" by (simp add: linux_cfg_def)
  have a: "\<exists>f'. fbuf_putint linux_cfg granting (small_buffer 4086) 1234567890 =
             Some (Returns (10, f')) \<and> used_f f' = 4096 \<and>
         drop 4086 (content f') = [49, 50, 51, 52, 53, 54, 55, 56, 57, 0]"
    by (simp add: fbuf_putint_def g [unfolded small_buffer_def] d1 c_snprintf_def
        small_buffer_def mem_write_def content_def Let_def)
  have b: "fbuf_putint linux_cfg granting (small_buffer 4086) (- 2147483648) = Some Aborted"
    by (simp add: fbuf_putint_def g [unfolded small_buffer_def] d2 cfg c_snprintf_def
        small_buffer_def mem_write_def Let_def)
  show ?thesis using a b s1 small_buffer_ok [of 4086] by simp
qed

subsection \<open>Initialized buffers\<close>

text \<open>
  The buffers the theorems above speak of are the ones the code produces: a successful
  initialisation leaves an initialized buffer (on Linux with \<^verbatim>\<open>BUFSIZ\<close> 1024 and zeroed memory,
  \<open>small_buffer 0\<close>), and a buffer stays initialized through every write that returns, on
  both platforms.
\<close>

lemma resized_zero: "resized (\<lambda>i. 0) [] n = replicate n (0::byte)"
  by (simp add: resized_def map_replicate_const)

lemma init_small_example:
  "fbuf_init_small linux_cfg granting hf f = Returns (0, hf, small_buffer 0)"
  by (cases f)
    (simp add: fbuf_init_small_def fbuf_initgrow_def linux_cfg_def granting_def
      small_buffer_def resized_zero Let_def)

lemma init_initialized:
  assumes "fbuf_initgrow cfg os hf (f\<lparr>used_f := 0, size_f := 0, buf_f := None\<rparr>) small =
             Returns (0, hf', f')"
  shows "initialized f' \<and> backed f' \<and> used_f f' = 0"
  using assms
  by (auto simp: fbuf_initgrow_def Let_def initialized_def backed_def length_resized
      word_le_nat_alt split: if_splits option.splits)

lemma store_initialized:
  assumes ini: "initialized f1" and b: "buf_f f1 = Some bs"
    and w: "mem_write bs (unat (used_f f1)) xs = Some bs'"
    and n: "unat n \<le> length xs"
  shows "initialized (f1\<lparr>buf_f := Some bs', used_f := used_f f1 + n\<rparr>)"
    and "initialized (f1\<lparr>buf_f := Some bs'\<rparr>)"
proof -
  from ini b have nz: "size_f f1 \<noteq> 0" and lb: "length bs \<le> unat (size_f f1)"
    by (simp_all add: initialized_def)
  from w have fit: "unat (used_f f1) + length xs \<le> length bs" and l': "length bs' = length bs"
    by (auto simp: mem_write_def split: if_splits)
  have "unat (used_f f1) + unat n \<le> unat (size_f f1)" using fit n lb by simp
  from unat_add_fit [OF this] have "unat (used_f f1 + n) = unat (used_f f1) + unat n" .
  then show "initialized (f1\<lparr>buf_f := Some bs', used_f := used_f f1 + n\<rparr>)"
    using nz lb fit n l' by (simp add: initialized_def)
  show "initialized (f1\<lparr>buf_f := Some bs'\<rparr>)"
    using nz lb fit l' by (simp add: initialized_def)
qed

lemma putc_initialized:
  assumes ini: "initialized f" and "fbuf_putc cfg os f c = Some (Returns (r, f'))"
  shows "initialized f'"
proof -
  from seq_Returns [OF assms(2) [unfolded fbuf_putc_def]]
  obtain g f1 where g: "fbuf_grow cfg os f 1 = Some (Returns (g, f1))"
    and k: "(if g \<noteq> 0 then Some (Returns (- 1, f1))
       else
         let at = used_f f1; f2 = f1\<lparr>used_f := used_f f1 + 1\<rparr>
         in (case fbuf_at f2 at of
               Addr i \<Rightarrow>
                 (case buf_f f2 of
                    None \<Rightarrow> Some Fault
                  | Some bs \<Rightarrow>
                      (case mem_write bs i [c] of
                         None \<Rightarrow> Some Fault
                       | Some bs' \<Rightarrow> Some (Returns (1, f2\<lparr>buf_f := Some bs'\<rparr>))))
             | _ \<Rightarrow> Some Fault)) = Some (Returns (r, f'))"
    by auto
  from grow_initialized [OF ini g] have i1: "initialized f1" by blast
  show ?thesis
  proof (cases "g = 0")
    case False
    with k i1 show ?thesis by simp
  next
    case True
    with k obtain bs bs' where b: "buf_f f1 = Some bs"
      and w: "mem_write bs (unat (used_f f1)) [c] = Some bs'"
      and f': "f' = f1\<lparr>buf_f := Some bs', used_f := used_f f1 + 1\<rparr>"
      by (auto simp: Let_def fbuf_at_def split: cptr.splits option.splits if_splits)
    from store_initialized(1) [OF i1 b w, of 1] show ?thesis by (simp add: f')
  qed
qed

lemma putn_initialized:
  assumes ini: "initialized f" and "fbuf_putn cfg os f s len = Some (Returns (r, f'))"
  shows "initialized f'"
proof -
  from seq_Returns [OF assms(2) [unfolded fbuf_putn_def]]
  obtain g f1 where g: "fbuf_grow cfg os f len = Some (Returns (g, f1))"
    and k: "(if g \<noteq> 0 then Some (Returns (- 1, f1))
       else
         (case mem_read s (unat len) of
            None \<Rightarrow> Some Fault
          | Some xs \<Rightarrow>
              (case buf_f f1 of
                 None \<Rightarrow> Some Fault
               | Some bs \<Rightarrow>
                   (case mem_write bs (unat (used_f f1)) xs of
                      None \<Rightarrow> Some Fault
                    | Some bs' \<Rightarrow>
                        Some (Returns (ucast len,
                                f1\<lparr>buf_f := Some bs', used_f := used_f f1 + len\<rparr>)))))) =
        Some (Returns (r, f'))"
    by auto
  from grow_initialized [OF ini g] have i1: "initialized f1" by blast
  show ?thesis
  proof (cases "g = 0")
    case False
    with k i1 show ?thesis by simp
  next
    case True
    with k obtain xs bs bs' where x: "mem_read s (unat len) = Some xs" and b: "buf_f f1 = Some bs"
      and w: "mem_write bs (unat (used_f f1)) xs = Some bs'"
      and f': "f' = f1\<lparr>buf_f := Some bs', used_f := used_f f1 + len\<rparr>"
      by (auto split: option.splits)
    from x have "unat len \<le> length xs" by (auto simp: mem_read_def split: if_splits)
    from store_initialized(1) [OF i1 b w this] show ?thesis by (simp add: f')
  qed
qed

lemma snprintf_stored_length:
  "length (fst (c_snprintf avail out)) = (if avail = 0 then 0 else min (length out) (avail - 1) + 1)"
  by (simp add: c_snprintf_def)

lemma putint_initialized:
  assumes ini: "initialized f" and "fbuf_putint cfg os f n = Some (Returns (r, f'))"
  shows "initialized f'"
proof -
  from seq_Returns [OF assms(2) [unfolded fbuf_putint_def]]
  obtain g f1 where g: "fbuf_grow cfg os f 10 = Some (Returns (g, f1))"
    and k: "(if g \<noteq> 0 then Some (Returns (- 1, f1))
       else
         let avail = size_f f1 - used_f f1;
             (stored, ret) = c_snprintf (unat avail) (show_int (sint n));
             r = (scast ret :: u64)
         in (case buf_f f1 of
               None \<Rightarrow> Some Fault
             | Some bs \<Rightarrow>
                 (case mem_write bs (unat (used_f f1)) stored of
                    None \<Rightarrow> Some Fault
                  | Some bs' \<Rightarrow>
                      if r > avail
                      then (if ndebug cfg then Some (Returns (- 1, f1\<lparr>buf_f := Some bs'\<rparr>))
                            else Some Aborted)
                      else Some (Returns (ucast r,
                                   f1\<lparr>buf_f := Some bs', used_f := used_f f1 + r\<rparr>))))) =
        Some (Returns (r, f'))"
    by auto
  from grow_initialized [OF ini g] have i1: "initialized f1" by blast
  show ?thesis
  proof (cases "g = 0")
    case False
    with k i1 show ?thesis by simp
  next
    case True
    let ?avail = "size_f f1 - used_f f1"
    let ?st = "fst (c_snprintf (unat ?avail) (show_int (sint n)))"
    let ?L = "length (show_int (sint n))"
    let ?r = "scast (snd (c_snprintf (unat ?avail) (show_int (sint n)))) :: u64"
    from k True obtain bs bs' where b: "buf_f f1 = Some bs"
      and w: "mem_write bs (unat (used_f f1)) ?st = Some bs'"
      and res: "f' = f1\<lparr>buf_f := Some bs'\<rparr> \<or>
                (\<not> ?avail < ?r \<and> f' = f1\<lparr>buf_f := Some bs', used_f := used_f f1 + ?r\<rparr>)"
      by (auto simp: Let_def split_def split: option.splits if_splits)
    have L: "?L \<le> 11" by (rule show_int_length)
    have r: "?r = word_of_nat ?L"
      unfolding snprintf_int_ret by (rule scast_small) (use L in simp)
    have ur: "unat ?r = ?L" unfolding r by (rule unat_of_nat_u64) (use L in simp)
    from res show ?thesis
    proof
      assume "f' = f1\<lparr>buf_f := Some bs'\<rparr>"
      with store_initialized(2) [OF i1 b w, of 0] show ?thesis by simp
    next
      assume a: "\<not> ?avail < ?r \<and> f' = f1\<lparr>buf_f := Some bs', used_f := used_f f1 + ?r\<rparr>"
      then have "unat ?r \<le> unat ?avail" by (simp add: word_less_nat_alt)
      then have "unat ?r \<le> length ?st"
        unfolding snprintf_stored_length using ur by auto
      from store_initialized(1) [OF i1 b w this] a show ?thesis by simp
    qed
  qed
qed

lemma printf_initialized:
  assumes ini: "initialized f" and "fbuf_printf cfg os f out = Some (Returns (r, f'))"
  shows "initialized f'"
proof -
  from seq_Returns [OF assms(2) [unfolded fbuf_printf_def]]
  obtain g f1 where g: "fbuf_grow cfg os f (BUFSIZ cfg) = Some (Returns (g, f1))"
    and k: "(if g <s 0 then Some (Returns (- 1, f1))
       else
         let avail = size_f f1 - used_f f1;
             (stored, r) = c_snprintf (unat avail) out
         in (case buf_f f1 of
               None \<Rightarrow> Some Fault
             | Some bs \<Rightarrow>
                 (case mem_write bs (unat (used_f f1)) stored of
                    None \<Rightarrow> Some Fault
                  | Some bs' \<Rightarrow>
                      if (scast r :: u64) \<ge> avail
                      then Some (Returns (- 1, f1\<lparr>buf_f := Some bs'\<rparr>))
                      else if \<not> ndebug cfg \<and> r <s 0 then Some Aborted
                      else Some (Returns (r,
                                   f1\<lparr>buf_f := Some bs', used_f := used_f f1 + scast r\<rparr>))))) =
        Some (Returns (r, f'))"
    by auto
  from grow_initialized [OF ini g] have i1: "initialized f1" by blast
  show ?thesis
  proof (cases "g <s 0")
    case True
    with k i1 show ?thesis by simp
  next
    case False
    let ?avail = "size_f f1 - used_f f1"
    let ?st = "fst (c_snprintf (unat ?avail) out)"
    let ?ret = "snd (c_snprintf (unat ?avail) out)"
    from k False obtain bs bs' where b: "buf_f f1 = Some bs"
      and w: "mem_write bs (unat (used_f f1)) ?st = Some bs'"
      and res: "f' = f1\<lparr>buf_f := Some bs'\<rparr> \<or>
                (\<not> ?avail \<le> (scast ?ret :: u64) \<and>
                 f' = f1\<lparr>buf_f := Some bs', used_f := used_f f1 + scast ?ret\<rparr>)"
      by (auto simp: Let_def split_def split: option.splits if_splits)
    from res show ?thesis
    proof
      assume "f' = f1\<lparr>buf_f := Some bs'\<rparr>"
      with store_initialized(2) [OF i1 b w, of 0] show ?thesis by simp
    next
      assume a: "\<not> ?avail \<le> (scast ?ret :: u64) \<and>
                 f' = f1\<lparr>buf_f := Some bs', used_f := used_f f1 + scast ?ret\<rparr>"
      from snprintf_ret_cases [of "unat ?avail" out]
      have ret: "?ret = word_of_nat (length out)" and L: "length out \<le> 2147483647"
        using a by auto
      have r: "(scast ?ret :: u64) = word_of_nat (length out)"
        unfolding ret by (rule scast_small [OF L])
      have ur: "unat (scast ?ret :: u64) = length out"
        unfolding r by (rule unat_of_nat_u64) (use L in simp)
      from a have "unat (scast ?ret :: u64) < unat ?avail" by (simp add: word_le_nat_alt)
      then have "unat (scast ?ret :: u64) \<le> length ?st"
        unfolding snprintf_stored_length using ur by auto
      from store_initialized(1) [OF i1 b w this] a show ?thesis by simp
    qed
  qed
qed

lemma write_initialized:
  assumes "initialized f" and "fbuf_write cfg os f w = Some (Returns (r, f'))"
  shows "initialized f'"
proof (cases w)
  case (Emit esc)
  show ?thesis
  proof (cases esc)
    case None
    with assms Emit show ?thesis by (simp add: fbuf_emit_def)
  next
    case (Some s)
    with assms(2) Emit have "seq (fbuf_puts cfg os f s) (\<lambda>(r, f1).
            if r <s 0 then Some (Returns (- 1, f1)) else Some (Returns (0, f1))) =
          Some (Returns (r, f'))"
      by (simp add: fbuf_emit_def)
    from seq_Returns [OF this] obtain r1 where "fbuf_puts cfg os f s = Some (Returns (r1, f'))"
      by (auto split: if_splits)
    then show ?thesis using assms(1) by (auto simp: fbuf_puts_def dest: putn_initialized)
  qed
qed (use assms in \<open>auto simp: fbuf_puts_def
      dest: putc_initialized putn_initialized putint_initialized printf_initialized\<close>)

end
